theory Spec2Isabelle
  imports Complex_Main "HOL-Library.Word" "HOL-Library.Monad_Syntax"
begin

unbundle bit_operations_syntax

section \<open>Machine types\<close>

text \<open>
  The C types of \<^verbatim>\<open>lj_str_hash.c\<close> on its two supported targets (x86-64 and
  ARM64, both little-endian, with the LP64 data model): \<^verbatim>\<open>uint8_t\<close>, \<^verbatim>\<open>uint32_t\<close>
  (also \<^verbatim>\<open>MSize\<close>) and \<^verbatim>\<open>uint64_t\<close> (also \<^verbatim>\<open>size_t\<close>) are unsigned words; \<^verbatim>\<open>int8_t\<close>
  is an 8-bit word read with \<open>sint\<close>/\<open>scast\<close>; \<^verbatim>\<open>long\<close> is a 64-bit word. A C \<^verbatim>\<open>int\<close>
  that only counts loop rounds (it stays between \<open>-1\<close> and 32) is an \<open>int\<close>.
\<close>

type_synonym u8 = "8 word"
type_synonym u32 = "32 word"
type_synonym u64 = "64 word"

section \<open>The log2 table and \<open>log2_floor\<close>\<close>

text \<open>\<^verbatim>\<open>static const int8_t log2_tab[128]\<close>, entry by entry; entry 0 is \<open>-1\<close>.\<close>

definition log2_tab :: "u8 list" where
  "log2_tab = [
    - 1, 0, 1, 1, 2, 2, 2, 2, 3, 3, 3, 3, 3, 3, 3, 3, 4, 4, 4, 4, 4, 4, 4,
    4, 4, 4, 4, 4, 4, 4, 4, 4, 5, 5, 5, 5, 5, 5, 5, 5, 5, 5, 5, 5, 5, 5, 5,
    5, 5, 5, 5, 5, 5, 5, 5, 5, 5, 5, 5, 5, 5, 5, 5, 5, 6, 6, 6, 6, 6, 6, 6,
    6, 6, 6, 6, 6, 6, 6, 6, 6, 6, 6, 6, 6, 6, 6, 6, 6, 6, 6, 6, 6, 6, 6, 6,
    6, 6, 6, 6, 6, 6, 6, 6, 6, 6, 6, 6, 6, 6, 6, 6, 6, 6, 6, 6, 6, 6, 6, 6,
    6, 6, 6, 6, 6, 6, 6, 6, 6]"

text \<open>
  \<^verbatim>\<open>log2_floor\<close>: every table index is guarded by the \<open>\<le> 127\<close> test before it, so
  the index is always inside the 128 entries. The \<^verbatim>\<open>int8_t\<close> entry is promoted to
  \<^verbatim>\<open>int\<close> (sign extension, \<open>scast\<close>), the offset is added, and the sum is returned as
  \<^verbatim>\<open>uint32_t\<close>.
\<close>

definition log2_floor :: "u32 \<Rightarrow> u32" where
  "log2_floor n =
     (if n \<le> 127 then scast (log2_tab ! unat n)
      else if drop_bit 8 n \<le> 127 then scast (log2_tab ! unat (drop_bit 8 n)) + 8
      else if drop_bit 16 n \<le> 127 then scast (log2_tab ! unat (drop_bit 16 n)) + 16
      else if drop_bit 24 n \<le> 127 then scast (log2_tab ! unat (drop_bit 24 n)) + 24
      else 31)"

section \<open>Buffers, unaligned loads and the log of reads\<close>

text \<open>
  The buffer is the list of bytes readable from \<^verbatim>\<open>str\<close> on; a position is a byte
  offset from \<^verbatim>\<open>str\<close>, an \<open>int\<close> because the pointer arithmetic of the source is done
  on 64-bit addresses and may step before the start. Reading outside the buffer is
  undefined in C; here such a read is the result \<open>None\<close>, which every routine passes on.
  Each successful read is appended to a log of \<open>(offset, width)\<close> pairs, so that the
  positions a routine reads can be stated. Words are assembled little-endian.
\<close>

type_synonym access = "int \<times> nat"
type_synonym trace = "access list"

fun le_word :: "u8 list \<Rightarrow> 'a::len word" where
  "le_word [] = 0"
| "le_word (b # bs) = ucast b OR push_bit 8 (le_word bs)"

definition load :: "nat \<Rightarrow> u8 list \<Rightarrow> int \<Rightarrow> trace \<Rightarrow> (u8 list \<times> trace) option" where
  "load w buf off tr =
     (if 0 \<le> off \<and> off + int w \<le> int (length buf)
      then Some (take w (drop (nat off) buf), tr @ [(off, w)])
      else None)"

text \<open>\<^verbatim>\<open>*(const uint8_t *)p\<close>, \<^verbatim>\<open>*cast_uint32p(p)\<close> (also \<^verbatim>\<open>lj_getu32(p)\<close>) and
  \<^verbatim>\<open>*cast_uint64p(p)\<close>.\<close>

definition rd8 :: "u8 list \<Rightarrow> int \<Rightarrow> trace \<Rightarrow> (u8 \<times> trace) option" where
  "rd8 buf off tr = map_option (\<lambda>(bs, tr'). (le_word bs, tr')) (load 1 buf off tr)"

definition rd32 :: "u8 list \<Rightarrow> int \<Rightarrow> trace \<Rightarrow> (u32 \<times> trace) option" where
  "rd32 buf off tr = map_option (\<lambda>(bs, tr'). (le_word bs, tr')) (load 4 buf off tr)"

definition rd64 :: "u8 list \<Rightarrow> int \<Rightarrow> trace \<Rightarrow> (u64 \<times> trace) option" where
  "rd64 buf off tr = map_option (\<lambda>(bs, tr'). (le_word bs, tr')) (load 8 buf off tr)"

text \<open>A byte index is covered by a log when some logged read spans it.\<close>

definition covers :: "trace \<Rightarrow> int \<Rightarrow> bool" where
  "covers tr i = (\<exists>(off, w) \<in> set tr. off \<le> i \<and> i < off + int w)"

text \<open>Two buffers agree on a log when they hold the same byte at every index it covers.\<close>

definition agree_on :: "trace \<Rightarrow> u8 list \<Rightarrow> u8 list \<Rightarrow> bool" where
  "agree_on tr b1 b2 =
     (\<forall>(off, w) \<in> set tr. \<forall>j < w. b1 ! (nat off + j) = b2 ! (nat off + j))"

section \<open>Primitives that are not in this file\<close>

text \<open>
  Modelled from the spec: the rotate of the bit mixer (\<^verbatim>\<open>lj_rol\<close>, a macro of a header
  that is not part of this file): a left rotation of a 32-bit word.
\<close>

definition lj_rol :: "u32 \<Rightarrow> nat \<Rightarrow> u32" where
  "lj_rol x n = word_rotl n x"

text \<open>
  The CRC32 primitives \<^verbatim>\<open>lj_crc32_u32\<close> and \<^verbatim>\<open>lj_crc32_u64\<close> are hardware instructions
  (\<^verbatim>\<open>_mm_crc32_u32\<close>/\<^verbatim>\<open>_mm_crc32_u64\<close>, or \<^verbatim>\<open>__crc32cw\<close>/\<^verbatim>\<open>__crc32cd\<close>). Every
  routine below takes them as the parameters \<open>c32\<close> and \<open>c64\<close>, so that what is proved
  holds for any such primitive.

  Closed instances need a concrete primitive. They use the CRC-32C step that both
  instruction sets define: the value is xor-ed into the low 32 bits of the accumulator
  and the result is reduced bit by bit, least significant bit first, by the reflected
  Castagnoli polynomial \<open>0x82F63B78\<close>; the 64-bit form returns the 32-bit result
  zero-extended.
\<close>

fun crc32c_bits :: "nat \<Rightarrow> u64 \<Rightarrow> u64" where
  "crc32c_bits 0 c = c"
| "crc32c_bits (Suc n) c =
     crc32c_bits n (if bit c 0 then drop_bit 1 c XOR 0x82F63B78 else drop_bit 1 c)"

definition crc32c_u32 :: "u32 \<Rightarrow> u32 \<Rightarrow> u32" where
  "crc32c_u32 crc v = ucast (crc32c_bits 32 (ucast (crc XOR v)))"

definition crc32c_u64 :: "u64 \<Rightarrow> u64 \<Rightarrow> u64" where
  "crc32c_u64 crc v = crc32c_bits 64 ((crc AND 0xFFFFFFFF) XOR v)"

section \<open>The length-band routines\<close>

text \<open>\<^verbatim>\<open>lj_str_hash_1_4\<close>, the enabled (\<^verbatim>\<open>#else\<close>) branch.\<close>

definition lj_str_hash_1_4 :: "u8 list \<Rightarrow> u32 \<Rightarrow> trace \<Rightarrow> (u32 \<times> trace) option" where
  "lj_str_hash_1_4 str len tr = do {
     let h = len;
     (x, tr) \<leftarrow> rd8 str 0 tr;
     let a = (ucast x :: u32);
     (x, tr) \<leftarrow> rd8 str (uint len - 1) tr;
     let h = h XOR ucast x;
     (x, tr) \<leftarrow> rd8 str (uint (drop_bit 1 len)) tr;
     let b = (ucast x :: u32);
     let h = h XOR b; let h = h - lj_rol b 14;
     let a = a XOR h; let a = a - lj_rol h 11;
     let b = b XOR a; let b = b - lj_rol a 25;
     let h = h XOR b; let h = h - lj_rol b 16;
     Some (h, tr)
   }"

text \<open>\<^verbatim>\<open>lj_str_hash_4_16\<close>: \<open>h\<close>, \<open>v1\<close>, \<open>v2\<close> are \<^verbatim>\<open>uint64_t\<close>; the result is cut to 32 bits.\<close>

definition lj_str_hash_4_16 ::
  "(u32 \<Rightarrow> u32 \<Rightarrow> u32) \<Rightarrow> (u64 \<Rightarrow> u64 \<Rightarrow> u64) \<Rightarrow> u8 list \<Rightarrow> u32 \<Rightarrow> trace \<Rightarrow> (u32 \<times> trace) option"
where
  "lj_str_hash_4_16 c32 c64 str len tr = do {
     (v1, v2, tr) \<leftarrow>
       (if len \<ge> 8 then do {
          (v1, tr) \<leftarrow> rd64 str 0 tr;
          (v2, tr) \<leftarrow> rd64 str (uint len - 8) tr;
          Some (v1, v2, tr)
        } else do {
          (v1, tr) \<leftarrow> rd32 str 0 tr;
          (v2, tr) \<leftarrow> rd32 str (uint len - 4) tr;
          Some (ucast v1, ucast v2, tr)
        });
     let h = (ucast (c32 0 len) :: u64);
     let h = c64 h v1;
     let h = c64 h v2;
     Some (ucast h, tr)
   }"

text \<open>
  \<^verbatim>\<open>lj_str_hash_16_128\<close>. The stride loop compares the 32-bit counter \<open>i\<close> with the
  32-bit difference \<open>len - 16\<close>; both wrap, so for a length under 16 the loop need not
  end, and it is a partial function: not returning is \<open>None\<close>, as a failed read is.
\<close>

partial_function (option) lj_str_hash_16_128_loop ::
  "(u64 \<Rightarrow> u64 \<Rightarrow> u64) \<Rightarrow> u8 list \<Rightarrow> u32 \<Rightarrow> u32 \<Rightarrow> u64 \<Rightarrow> u64 \<Rightarrow> trace
     \<Rightarrow> (u64 \<times> u64 \<times> trace) option"
where
  "lj_str_hash_16_128_loop c64 str len i h1 h2 tr =
     (if i < len - 16 then do {
        (v, tr) \<leftarrow> rd64 str (uint i) tr;
        let h1 = h1 + c64 h1 v;
        (v, tr) \<leftarrow> rd64 str (uint i + 8) tr;
        let h2 = h2 + c64 h2 v;
        lj_str_hash_16_128_loop c64 str len (i + 16) h1 h2 tr
      } else Some (h1, h2, tr))"

text \<open>
  The body of \<^verbatim>\<open>lj_str_hash_16_128\<close> up to its \<^verbatim>\<open>return\<close>: the two accumulators and the
  log of reads; the \<^verbatim>\<open>return\<close> statement combines the accumulators.
\<close>

definition lj_str_hash_16_128_accs ::
  "(u32 \<Rightarrow> u32 \<Rightarrow> u32) \<Rightarrow> (u64 \<Rightarrow> u64 \<Rightarrow> u64) \<Rightarrow> u8 list \<Rightarrow> u32 \<Rightarrow> trace
     \<Rightarrow> (u64 \<times> u64 \<times> trace) option"
where
  "lj_str_hash_16_128_accs c32 c64 str len tr = do {
     let h1 = (ucast (c32 0 len) :: u64);
     let h2 = (0 :: u64);
     (h1, h2, tr) \<leftarrow> lj_str_hash_16_128_loop c64 str len 0 h1 h2 tr;
     (v, tr) \<leftarrow> rd64 str (uint len - 16) tr;
     let h1 = c64 h1 v;
     (v, tr) \<leftarrow> rd64 str (uint len - 8) tr;
     let h2 = c64 h2 v;
     Some (h1, h2, tr)
   }"

definition lj_str_hash_16_128 ::
  "(u32 \<Rightarrow> u32 \<Rightarrow> u32) \<Rightarrow> (u64 \<Rightarrow> u64 \<Rightarrow> u64) \<Rightarrow> u8 list \<Rightarrow> u32 \<Rightarrow> trace \<Rightarrow> (u32 \<times> trace) option"
where
  "lj_str_hash_16_128 c32 c64 str len tr = do {
     (h1, h2, tr) \<leftarrow> lj_str_hash_16_128_accs c32 c64 str len tr;
     Some (c32 (ucast h1) (ucast h2), tr)
   }"

declare lj_str_hash_16_128_loop.simps [code]

section \<open>The sample-position table\<close>

text \<open>
  \<^verbatim>\<open>static uint32_t random_pos[32][2]\<close>: a store from row and slot to a cell. An index
  outside \<open>[0, 32)\<close> or \<open>[0, 2)\<close> is outside the array, and the access is \<open>None\<close>.
\<close>

type_synonym table = "nat \<Rightarrow> nat \<Rightarrow> u32"

definition tab_get :: "table \<Rightarrow> int \<Rightarrow> int \<Rightarrow> u32 option" where
  "tab_get t i j =
     (if 0 \<le> i \<and> i < 32 \<and> 0 \<le> j \<and> j < 2 then Some (t (nat i) (nat j)) else None)"

definition tab_set :: "table \<Rightarrow> int \<Rightarrow> int \<Rightarrow> u32 \<Rightarrow> table option" where
  "tab_set t i j v =
     (if 0 \<le> i \<and> i < 32 \<and> 0 \<le> j \<and> j < 2
      then Some (t(nat i := (t (nat i))(nat j := v)))
      else None)"

definition get_random_pos_unsafe :: "table \<Rightarrow> u32 \<Rightarrow> u32 \<Rightarrow> u32 option" where
  "get_random_pos_unsafe t chunk_sz_order idx = do {
     pos \<leftarrow> tab_get t (uint chunk_sz_order) (uint (idx AND 1));
     Some pos
   }"

text \<open>
  The C library's generator: \<^verbatim>\<open>srandom(seed)\<close> restarts it, \<^verbatim>\<open>random()\<close> returns the
  next \<^verbatim>\<open>long\<close> of the sequence that belongs to the seed. The generator \<open>gen\<close> (seed and
  position to value) is a parameter. \<open>rng_seedings\<close> counts the calls of \<^verbatim>\<open>srandom\<close>.
\<close>

record rng_state =
  rng_seed :: u32
  rng_draws :: nat
  rng_seedings :: nat

definition srandom :: "u32 \<Rightarrow> rng_state \<Rightarrow> rng_state" where
  "srandom seed r = \<lparr>rng_seed = seed, rng_draws = 0, rng_seedings = rng_seedings r + 1\<rparr>"

definition random :: "(u32 \<Rightarrow> nat \<Rightarrow> u64) \<Rightarrow> rng_state \<Rightarrow> u64 \<times> rng_state" where
  "random gen r = (gen (rng_seed r) (rng_draws r), r\<lparr>rng_draws := rng_draws r + 1\<rparr>)"

text \<open>
  \<^verbatim>\<open>#define POW2_MASK(n) ((1L << (n)) - 1)\<close>, on 64-bit \<^verbatim>\<open>long\<close>; the shift count is
  between 4 and 32 at every use.
\<close>

definition POW2_MASK :: "int \<Rightarrow> u64" where
  "POW2_MASK n = push_bit (nat n) 1 - 1"

text \<open>The three loops of \<^verbatim>\<open>lj_str_hash_init_random\<close> share the counter \<open>i\<close>.\<close>

function init_zero_loop :: "int \<Rightarrow> table \<Rightarrow> (int \<times> table) option" where
  "init_zero_loop i t =
     (if i < 3 then do {
        t \<leftarrow> tab_set t i 1 0;
        t \<leftarrow> tab_set t i 0 0;
        init_zero_loop (i + 1) t
      } else Some (i, t))"
  by pat_completeness auto
termination
  by (relation "measure (\<lambda>(i, t). nat (3 - i))") auto

function init_mask_loop ::
  "(u32 \<Rightarrow> nat \<Rightarrow> u64) \<Rightarrow> int \<Rightarrow> int \<Rightarrow> table \<Rightarrow> rng_state \<Rightarrow> (int \<times> table \<times> rng_state) option"
where
  "init_mask_loop gen rml i t r =
     (if i < rml then do {
        let (x, r) = random gen r;
        t \<leftarrow> tab_set t i 0 (ucast (x AND POW2_MASK (i + 1)));
        let (x, r) = random gen r;
        t \<leftarrow> tab_set t i 1 (ucast (x AND POW2_MASK (i + 1)));
        init_mask_loop gen rml (i + 1) t r
      } else Some (i, t, r))"
  by pat_completeness auto
termination
  by (relation "measure (\<lambda>(gen, rml, i, t, r). nat (rml - i))") auto

function init_scale_inner ::
  "(u32 \<Rightarrow> nat \<Rightarrow> u64) \<Rightarrow> int \<Rightarrow> int \<Rightarrow> int \<Rightarrow> table \<Rightarrow> rng_state \<Rightarrow> (table \<times> rng_state) option"
where
  "init_scale_inner gen rml i j t r =
     (if j < 2 then do {
        scale \<leftarrow> tab_get t (i - rml) 0;
        let scale = (if scale = 0 then 1 else scale);
        let (x, r) = random gen r;
        let v = (ucast ((x * ucast scale) AND POW2_MASK (i + 1)) :: u32);
        t \<leftarrow> tab_set t i j v;
        init_scale_inner gen rml i (j + 1) t r
      } else Some (t, r))"
  by pat_completeness auto
termination
  by (relation "measure (\<lambda>(gen, rml, i, j, t, r). nat (2 - j))") auto

function init_scale_loop ::
  "(u32 \<Rightarrow> nat \<Rightarrow> u64) \<Rightarrow> int \<Rightarrow> int \<Rightarrow> table \<Rightarrow> rng_state \<Rightarrow> (table \<times> rng_state) option"
where
  "init_scale_loop gen rml i t r =
     (if i < 31 then do {
        (t, r) \<leftarrow> init_scale_inner gen rml i 0 t r;
        init_scale_loop gen rml (i + 1) t r
      } else Some (t, r))"
  by pat_completeness auto
termination
  by (relation "measure (\<lambda>(gen, rml, i, t, r). nat (31 - i))") auto

declare init_zero_loop.simps [simp del]
declare init_mask_loop.simps [simp del]
declare init_scale_inner.simps [simp del]
declare init_scale_loop.simps [simp del]

text \<open>
  \<^verbatim>\<open>lj_str_hash_init_random\<close>. \<open>RAND_MAX\<close>, the process id and the clock are parameters;
  \<open>rml\<close> is a C \<^verbatim>\<open>int\<close> (the \<^verbatim>\<open>uint32_t\<close> result of \<open>log2_floor\<close> read as signed).
\<close>

definition lj_str_hash_init_random ::
  "(u32 \<Rightarrow> u32 \<Rightarrow> u32) \<Rightarrow> u32 \<Rightarrow> (u32 \<Rightarrow> nat \<Rightarrow> u64) \<Rightarrow> u32 \<Rightarrow> u64 \<Rightarrow> table \<Rightarrow> rng_state
     \<Rightarrow> (table \<times> rng_state) option"
where
  "lj_str_hash_init_random c32 RAND_MAX gen pid now t r = do {
     let rml = sint (log2_floor RAND_MAX);
     let rml = (if RAND_MAX AND (RAND_MAX - 1) \<noteq> 0 then rml + 1 else rml);
     let seed = c32 0 pid;
     let seed = c32 seed (ucast now);
     let r = srandom seed r;
     (i, t) \<leftarrow> init_zero_loop 0 t;
     (i, t, r) \<leftarrow> init_mask_loop gen rml i t r;
     (t, r) \<leftarrow> init_scale_loop gen rml i t r;
     Some (t, r)
   }"

section \<open>The routine for 128 bytes and more\<close>

text \<open>
  The chunk-pair loop: \<open>i\<close> and the bound are \<^verbatim>\<open>uint32_t\<close>, \<open>chunk_ptr\<close> is a pointer,
  kept as its offset from \<^verbatim>\<open>str\<close>.
\<close>

function lj_str_hash_128_above_loop ::
  "(u64 \<Rightarrow> u64 \<Rightarrow> u64) \<Rightarrow> u8 list \<Rightarrow> u32 \<Rightarrow> u32 \<Rightarrow> u32 \<Rightarrow> u32 \<Rightarrow> u32 \<Rightarrow> int \<Rightarrow> u64 \<Rightarrow> u64 \<Rightarrow> trace
     \<Rightarrow> (int \<times> u64 \<times> u64 \<times> trace) option"
where
  "lj_str_hash_128_above_loop c64 str chunk_sz pos1 pos2 bound i chunk_ptr h1 h2 tr =
     (if i < bound then do {
        (v, tr) \<leftarrow> rd64 str (chunk_ptr + uint pos1) tr;
        let h1 = c64 h1 v;
        (v, tr) \<leftarrow> rd64 str (chunk_ptr + uint chunk_sz + uint pos2) tr;
        let h2 = c64 h2 v;
        lj_str_hash_128_above_loop c64 str chunk_sz pos1 pos2 bound (i + 1)
          (chunk_ptr + uint chunk_sz) h1 h2 tr
      } else Some (chunk_ptr, h1, h2, tr))"
  by pat_completeness auto
termination
proof -
  have step: "unat bound - unat (i + 1) < unat bound - unat i" if "i < bound" for i bound :: u32
  proof -
    have less: "unat i < unat bound"
      using that by (simp add: word_less_nat_alt)
    moreover have "unat bound < 2 ^ 32"
      using unsigned_less [of bound, where ?'a = nat] by simp
    ultimately have "unat i + unat (1 :: u32) < 2 ^ LENGTH(32)"
      by simp
    then have "unat (i + 1) = unat i + unat (1 :: u32)"
      by (rule unat_add_lem [THEN iffD1])
    with less show ?thesis
      by simp
  qed
  show ?thesis
    by (relation "measure (\<lambda>(c64, str, chunk_sz, pos1, pos2, bound, i, rest). unat bound - unat i)")
       (simp_all add: step)
qed

declare lj_str_hash_128_above_loop.simps [simp del]

definition lj_str_hash_128_above ::
  "(u32 \<Rightarrow> u32 \<Rightarrow> u32) \<Rightarrow> (u64 \<Rightarrow> u64 \<Rightarrow> u64) \<Rightarrow> table \<Rightarrow> u8 list \<Rightarrow> u32 \<Rightarrow> trace
     \<Rightarrow> (u32 \<times> trace) option"
where
  "lj_str_hash_128_above c32 c64 t str len tr = do {
     let chunk_num = (16 :: u32);
     let chunk_sz = len div chunk_num;
     let chunk_sz_log2 = log2_floor chunk_sz;
     pos1 \<leftarrow> get_random_pos_unsafe t chunk_sz_log2 0;
     pos2 \<leftarrow> get_random_pos_unsafe t chunk_sz_log2 1;
     let h1 = (ucast (c32 0 len) :: u64);
     let h2 = (0 :: u64);
     (chunk_ptr, h1, h2, tr) \<leftarrow>
       lj_str_hash_128_above_loop c64 str chunk_sz pos1 pos2 (chunk_num div 2 - 1) 0 0 h1 h2 tr;
     (v, tr) \<leftarrow> rd64 str (chunk_ptr + uint pos1) tr;
     let h1 = c64 h1 v;
     (v, tr) \<leftarrow> rd64 str (chunk_ptr + uint chunk_sz - 8 - uint pos2) tr;
     let h2 = c64 h2 v;
     (v, tr) \<leftarrow> rd64 str 0 tr;
     let h1 = c64 h1 v;
     (v, tr) \<leftarrow> rd64 str (uint len - 8) tr;
     let h2 = c64 h2 v;
     let h1 = (ucast (c32 (ucast h1) (ucast h2)) :: u64);
     Some (ucast h1, tr)
   }"

section \<open>Dispatcher, portable routine and selection\<close>

text \<open>\<^verbatim>\<open>lj_str_hash_crc32\<close>: \<open>len\<close> is a \<^verbatim>\<open>size_t\<close>, cut to 32 bits at each call.\<close>

definition lj_str_hash_crc32 ::
  "(u32 \<Rightarrow> u32 \<Rightarrow> u32) \<Rightarrow> (u64 \<Rightarrow> u64 \<Rightarrow> u64) \<Rightarrow> table \<Rightarrow> u8 list \<Rightarrow> u64 \<Rightarrow> trace
     \<Rightarrow> (u32 \<times> trace) option"
where
  "lj_str_hash_crc32 c32 c64 t str len tr =
     (if len < 128 then
        if len \<ge> 16 then lj_str_hash_16_128 c32 c64 str (ucast len) tr
        else if len \<ge> 4 then lj_str_hash_4_16 c32 c64 str (ucast len) tr
        else lj_str_hash_1_4 str (ucast len) tr
      else lj_str_hash_128_above c32 c64 t str (ucast len) tr)"

text \<open>\<^verbatim>\<open>lj_str_hash_orig\<close>; \<^verbatim>\<open>MSize\<close> is \<^verbatim>\<open>uint32_t\<close>.\<close>

definition lj_str_hash_orig :: "u8 list \<Rightarrow> u64 \<Rightarrow> trace \<Rightarrow> (u32 \<times> trace) option" where
  "lj_str_hash_orig str lenx tr = (
     let len = (ucast lenx :: u32); h = len in
     if len \<ge> 4 then do {
       (a, tr) \<leftarrow> rd32 str 0 tr;
       (x, tr) \<leftarrow> rd32 str (uint len - 4) tr;
       let h = h XOR x;
       (b, tr) \<leftarrow> rd32 str (uint (drop_bit 1 len) - 2) tr;
       let h = h XOR b; let h = h - lj_rol b 14;
       (x, tr) \<leftarrow> rd32 str (uint (drop_bit 2 len) - 1) tr;
       let b = b + x;
       let a = a XOR h; let a = a - lj_rol h 11;
       let b = b XOR a; let b = b - lj_rol a 25;
       let h = h XOR b; let h = h - lj_rol b 16;
       Some (h, tr)
     } else if len > 0 then do {
       (x, tr) \<leftarrow> rd8 str 0 tr;
       let a = (ucast x :: u32);
       (x, tr) \<leftarrow> rd8 str (uint len - 1) tr;
       let h = h XOR ucast x;
       (x, tr) \<leftarrow> rd8 str (uint (drop_bit 1 len)) tr;
       let b = (ucast x :: u32);
       let h = h XOR b; let h = h - lj_rol b 14;
       let a = a XOR h; let a = a - lj_rol h 11;
       let b = b XOR a; let b = b - lj_rol a 25;
       let h = h XOR b; let h = h - lj_rol b 16;
       Some (h, tr)
     } else Some (0, tr))"

text \<open>
  \<^verbatim>\<open>lj_check_crc32_support\<close>, one variant per target. On x86-64 the input is the result
  of \<^verbatim>\<open>lj_vm_cpuid(1, features)\<close> (\<open>None\<close> when it returns 0); on ARM64 it is the value
  of \<^verbatim>\<open>getauxval(AT_HWCAP)\<close>, cut to 32 bits, with \<^verbatim>\<open>ENOENT\<close> = 2.
\<close>

datatype hardware = X64 "(u32 \<times> u32 \<times> u32 \<times> u32) option" | ARM64 u64

definition F_CPU_SSE4_2 :: u32 where
  "F_CPU_SSE4_2 = push_bit 20 1"

definition HWCAP_CRC32 :: u32 where
  "HWCAP_CRC32 = push_bit 7 1"

fun lj_check_crc32_support :: "hardware \<Rightarrow> bool" where
  "lj_check_crc32_support (X64 (Some (f0, f1, f2, f3))) = (f2 AND F_CPU_SSE4_2 \<noteq> 0)"
| "lj_check_crc32_support (X64 None) = False"
| "lj_check_crc32_support (ARM64 auxval) =
     (let hwcap = (ucast auxval :: u32) in
      if hwcap \<noteq> 2 then hwcap AND HWCAP_CRC32 \<noteq> 0 else False)"

text \<open>
  The function pointer \<^verbatim>\<open>StrHashFunction\<close> is \<open>None\<close> for \<^verbatim>\<open>NULL\<close> or names one of the
  two routines. The statics of the file are the table, the function-local
  \<^verbatim>\<open>strhashfn\<close> and the C library's generator; of \<^verbatim>\<open>global_State\<close> only the field
  \<^verbatim>\<open>strhashfn\<close> is used.
\<close>

datatype StrHashFunction = Fn_lj_str_hash_crc32 | Fn_lj_str_hash_orig

record statics =
  random_pos :: table
  strhashfn :: "StrHashFunction option"
  rng :: rng_state

record global_State =
  g_strhashfn :: "StrHashFunction option"

definition lj_init_strhashfn ::
  "(u32 \<Rightarrow> u32 \<Rightarrow> u32) \<Rightarrow> u32 \<Rightarrow> (u32 \<Rightarrow> nat \<Rightarrow> u64) \<Rightarrow> hardware \<Rightarrow> u32 \<Rightarrow> u64
     \<Rightarrow> statics \<Rightarrow> global_State \<Rightarrow> (statics \<times> global_State) option"
where
  "lj_init_strhashfn c32 RAND_MAX gen hw pid now s g = do {
     s \<leftarrow>
       (if strhashfn s = None then
          if lj_check_crc32_support hw then do {
            (t, r) \<leftarrow> lj_str_hash_init_random c32 RAND_MAX gen pid now (random_pos s) (rng s);
            Some (s\<lparr>random_pos := t, rng := r, strhashfn := Some Fn_lj_str_hash_crc32\<rparr>)
          } else Some (s\<lparr>strhashfn := Some Fn_lj_str_hash_orig\<rparr>)
        else Some s);
     Some (s, g\<lparr>g_strhashfn := strhashfn s\<rparr>)
   }"

text \<open>
  A sequence of calls of \<^verbatim>\<open>lj_init_strhashfn\<close>: each call has its own probe input,
  process id, clock and \<^verbatim>\<open>global_State\<close>; the statics are threaded through. The result
  lists the statics and the \<^verbatim>\<open>global_State\<close> after each call.
\<close>

type_synonym call = "hardware \<times> u32 \<times> u64 \<times> global_State"

fun lj_init_strhashfn_calls ::
  "(u32 \<Rightarrow> u32 \<Rightarrow> u32) \<Rightarrow> u32 \<Rightarrow> (u32 \<Rightarrow> nat \<Rightarrow> u64) \<Rightarrow> call list \<Rightarrow> statics
     \<Rightarrow> (statics \<times> global_State) list option"
where
  "lj_init_strhashfn_calls c32 RAND_MAX gen [] s = Some []"
| "lj_init_strhashfn_calls c32 RAND_MAX gen ((hw, pid, now, g) # cs) s = do {
     (s', g') \<leftarrow> lj_init_strhashfn c32 RAND_MAX gen hw pid now s g;
     rest \<leftarrow> lj_init_strhashfn_calls c32 RAND_MAX gen cs s';
     Some ((s', g') # rest)
   }"

section \<open>Predicates of the claims\<close>

text \<open>
  A logged read is in range of \<open>hi\<close> when it is 8 bytes wide, does not start before the
  buffer and ends at or before offset \<open>hi\<close>.
\<close>

definition in_range :: "int \<Rightarrow> access \<Rightarrow> bool" where
  "in_range hi a = (snd a = 8 \<and> 0 \<le> fst a \<and> fst a + 8 \<le> hi)"

text \<open>
  The sampled reads of a run of \<^verbatim>\<open>lj_str_hash_128_above\<close>: the 16 reads of the chunk
  pairs, which come first in its log; the last two entries are the reads of the first
  and of the last 8 bytes.
\<close>

definition sampled_reads :: "(u32 \<times> trace) option \<Rightarrow> trace" where
  "sampled_reads r = (case r of Some (h, tr) \<Rightarrow> take 16 tr | None \<Rightarrow> [])"

text \<open>
  The last 8 bytes of a buffer of \<open>len\<close> bytes (indices \<open>len - 8\<close> to \<open>len - 1\<close>) and the
  8 bytes before them (indices \<open>len - 16\<close> to \<open>len - 9\<close>), as little-endian words.
\<close>

definition last8 :: "u8 list \<Rightarrow> u32 \<Rightarrow> u64" where
  "last8 str len = le_word (take 8 (drop (unat len - 8) str))"

definition prev8 :: "u8 list \<Rightarrow> u32 \<Rightarrow> u64" where
  "prev8 str len = le_word (take 8 (drop (unat len - 16) str))"

text \<open>
  The accumulators after the two folds that follow the stride loop, in the words of
  C5: the last 8 bytes folded into \<open>h1\<close>, the 8 bytes before them into \<open>h2\<close>.
\<close>

definition claimed_16_128_tail ::
  "(u64 \<Rightarrow> u64 \<Rightarrow> u64) \<Rightarrow> u8 list \<Rightarrow> u32 \<Rightarrow> u64 \<Rightarrow> u64 \<Rightarrow> u64 \<times> u64" where
  "claimed_16_128_tail c64 str len h1 h2 = (c64 h1 (last8 str len), c64 h2 (prev8 str len))"

text \<open>
  A cell of the table is in order when it is below \<open>2^(order+1)\<close> and, for an order under
  3, zero; \<open>tab_ok n\<close> says so for both slots of the rows below \<open>n\<close>.
\<close>

definition cell_ok :: "table \<Rightarrow> nat \<Rightarrow> nat \<Rightarrow> bool" where
  "cell_ok t k j = (unat (t k j) < 2 ^ (k + 1) \<and> (k < 3 \<longrightarrow> t k j = 0))"

definition tab_ok :: "nat \<Rightarrow> table \<Rightarrow> bool" where
  "tab_ok n t = (\<forall>k < n. \<forall>j < 2. cell_ok t k j)"

section \<open>Properties of \<open>log2_floor\<close>\<close>

text \<open>Every entry of the table but the first is the floor of the binary logarithm of its index.\<close>

lemma log2_tab_all:
  "list_all (\<lambda>(m, t). m = 0 \<or> (0 \<le> sint t \<and> sint t < 7 \<and> 2 ^ nat (sint t) \<le> m \<and> m < 2 ^ (nat (sint t) + 1)))
     (zip [0..<128] log2_tab)"
  unfolding log2_tab_def by code_simp

lemma length_log2_tab: "length log2_tab = 128"
  unfolding log2_tab_def by simp

lemma log2_tab_0: "log2_tab ! 0 = - 1"
  unfolding log2_tab_def by simp

lemma log2_tab_nth:
  assumes "0 < m" "m < 128"
  shows "0 \<le> sint (log2_tab ! m) \<and> sint (log2_tab ! m) < 7 \<and>
         2 ^ nat (sint (log2_tab ! m)) \<le> m \<and> m < 2 ^ (nat (sint (log2_tab ! m)) + 1)"
proof -
  have "m < length (zip [0..<128] log2_tab)"
    using assms by (simp add: length_log2_tab)
  moreover have "zip [0..<128] log2_tab ! m = (m, log2_tab ! m)"
    using assms by (simp add: length_log2_tab)
  ultimately show ?thesis
    using log2_tab_all assms(1) by (auto simp: list_all_length)
qed

lemma unat_scast_tab:
  fixes t :: u8 and c :: nat
  assumes "0 \<le> sint t" "sint t < 7" "c \<le> 24"
  shows "unat (scast t + (word_of_nat c :: u32)) = nat (sint t) + c"
proof -
  have "(scast t :: u32) = word_of_nat (nat (sint t))"
    using assms(1) by simp
  then have "scast t + (word_of_nat c :: u32) = word_of_nat (nat (sint t) + c)"
    by simp
  moreover have "nat (sint t) + c < 2 ^ 32"
    using assms by simp
  ultimately show ?thesis
    by (intro of_nat_inverse) simp_all
qed

text \<open>One range case of \<open>log2_floor\<close>: the table is read at \<open>n >> s\<close> and \<open>s\<close> is added.\<close>

lemma log2_shift_case:
  fixes n :: nat and t :: u8
  assumes m: "n div 2 ^ s < 128" and lo: "2 ^ (s - 1) \<le> n" and s: "s \<in> {0, 8, 16, 24}"
    and n0: "0 < n"
    and t: "t = log2_tab ! (n div 2 ^ s)"
  shows "2 ^ unat (scast t + (word_of_nat s :: u32)) \<le> n \<and>
         n < 2 ^ (unat (scast t + (word_of_nat s :: u32)) + 1)"
proof (cases "n div 2 ^ s = 0")
  case True
  then have ns: "n < 2 ^ s" 
    by (simp add: div_eq_0_iff)
  then have s0: "s \<noteq> 0" using n0 by (cases "s = 0") auto
  have "t = - 1" using t True by (simp add: log2_tab_0)
  then have "scast t + (word_of_nat s :: u32) = word_of_nat (s - 1)"
    using s0 s by auto
  moreover have "unat (word_of_nat (s - 1) :: u32) = s - 1"
    using s by (auto simp: unat_of_nat)
  moreover have "2 ^ (s - 1 + 1) = (2::nat) ^ s" using s0 by simp
  ultimately show ?thesis using lo ns by simp
next
  case False
  define m where "m = n div 2 ^ s"
  have m0: "0 < m" using False m_def by simp
  define k where "k = nat (sint t)"
  have tk: "0 \<le> sint t" "sint t < 7" "2 ^ k \<le> m" "m < 2 ^ (k + 1)"
    using log2_tab_nth[OF m0] m t by (simp_all add: m_def k_def)
  have "unat (scast t + (word_of_nat s :: u32)) = k + s"
    using unat_scast_tab[OF tk(1,2), of s] s by (auto simp: k_def)
  moreover have "2 ^ (k + s) \<le> n"
  proof -
    have "2 ^ k * 2 ^ s \<le> m * 2 ^ s" using tk(3) by simp
    also have "\<dots> \<le> n" unfolding m_def by simp
    finally show ?thesis by (simp add: power_add)
  qed
  moreover have "n < 2 ^ (k + s + 1)"
  proof -
    have "n div 2 ^ s < 2 ^ (k + 1)" using tk(4) by (simp add: m_def)
    then have "n < 2 ^ (k + 1) * 2 ^ s"
      by (simp add: less_mult_imp_div_less div_less_iff_less_mult)
    then show ?thesis by (simp add: power_add mult_ac)
  qed
  ultimately show ?thesis by simp
qed

lemma log2_floor_bounds:
  assumes "n \<noteq> 0"
  shows "2 ^ unat (log2_floor n) \<le> unat n \<and> unat n < 2 ^ (unat (log2_floor n) + 1)"
proof -
  have n0: "0 < unat n" using assms by (simp add: unat_gt_0)
  have le127: "\<And>w :: u32. (w \<le> 127) = (unat w < 128)"
    by (simp add: word_le_nat_alt) arith
  have db: "\<And>k. unat (drop_bit k n) = unat n div 2 ^ k"
    unfolding unat_drop_bit_eq by (rule drop_bit_eq_div)
  consider (a) "unat n < 128"
    | (b) "128 \<le> unat n" "unat n div 2 ^ 8 < 128"
    | (c) "128 \<le> unat n div 2 ^ 8" "unat n div 2 ^ 16 < 128"
    | (d) "128 \<le> unat n div 2 ^ 16" "unat n div 2 ^ 24 < 128"
    | (e) "128 \<le> unat n div 2 ^ 24"
    by linarith
  then show ?thesis
  proof cases
    case a
    then have "log2_floor n = scast (log2_tab ! (unat n div 2 ^ 0)) + word_of_nat 0"
      by (simp add: log2_floor_def le127)
    moreover have "unat n div 2 ^ 0 < 128" using a by simp
    ultimately show ?thesis
      using log2_shift_case[of "unat n" 0, OF _ _ _ n0 refl] n0 by simp
  next
    case b
    then have "log2_floor n = scast (log2_tab ! (unat n div 2 ^ 8)) + word_of_nat 8"
      by (simp add: log2_floor_def le127 db)
    then show ?thesis
      using log2_shift_case[of "unat n" 8, OF b(2) _ _ n0 refl] b(1) by simp
  next
    case c
    have "128 * 2 ^ 8 \<le> unat n" using c(1) by simp
    have "\<not> unat n < 128" using c(1) by simp
    then have "log2_floor n = scast (log2_tab ! (unat n div 2 ^ 16)) + word_of_nat 16"
      using c by (simp add: log2_floor_def le127 db)
    then show ?thesis
      using log2_shift_case[of "unat n" 16, OF c(2) _ _ n0 refl] c(1) by simp
  next
    case d
    have "\<not> unat n < 128" "\<not> unat n div 2 ^ 8 < 128" using d(1) by simp_all
    then have "log2_floor n = scast (log2_tab ! (unat n div 2 ^ 24)) + word_of_nat 24"
      using d by (simp add: log2_floor_def le127 db)
    then show ?thesis
      using log2_shift_case[of "unat n" 24, OF d(2) _ _ n0 refl] d(1) by simp
  next
    case e
    have "\<not> unat n < 128" "\<not> unat n div 2 ^ 8 < 128" "\<not> unat n div 2 ^ 16 < 128" using e(1) by simp_all
    then have "log2_floor n = 31"
      using e by (simp add: log2_floor_def le127 db)
    moreover have "unat n < 2 ^ 32" using unsigned_less[of n, where ?'a = nat] by simp
    moreover have "2 ^ 31 \<le> unat n" using e by simp
    ultimately show ?thesis by simp
  qed
qed

text \<open>
  C10: for every 32-bit \<open>n\<close> from 1 to \<open>2^32 - 1\<close>, \<open>log2_floor n\<close> is the floor of the
  binary logarithm of \<open>n\<close>; for every \<open>n\<close> from \<open>2^31\<close> on it is 31. Entry 0 of the table
  is read for such an \<open>n\<close> only in the shifted cases, where the sum is the right floor.
\<close>

theorem log2_floor_correct:
  assumes "n \<noteq> 0"
  shows "int (unat (log2_floor n)) = \<lfloor>log 2 (real (unat n))\<rfloor> \<and>
         (2 ^ 31 \<le> unat n \<longrightarrow> log2_floor n = 31)"
proof
  have b: "2 ^ unat (log2_floor n) \<le> unat n" "unat n < 2 ^ (unat (log2_floor n) + 1)"
    using log2_floor_bounds [OF assms] by simp_all
  have "\<lfloor>log (real (2::nat)) (real (unat n))\<rfloor> = int (unat (log2_floor n))"
    by (rule floor_log_nat_eq_if [OF b]) simp
  then show "int (unat (log2_floor n)) = \<lfloor>log 2 (real (unat n))\<rfloor>"
    by simp
  show "2 ^ 31 \<le> unat n \<longrightarrow> log2_floor n = 31"
  proof
    assume big: "2 ^ 31 \<le> unat n"
    have "unat n < 2 ^ 32"
      using unsigned_less [of n, where ?'a = nat] by simp
    have "unat (log2_floor n) = 31"
    proof (rule ccontr)
      assume ne: "unat (log2_floor n) \<noteq> 31"
      show False
      proof (cases "unat (log2_floor n) < 31")
        case True
        then have "unat (log2_floor n) + 1 \<le> 31" by simp
        then have "(2::nat) ^ (unat (log2_floor n) + 1) \<le> 2 ^ 31"
          by (rule power_increasing) simp
        with b(2) big show False by simp
      next
        case False
        with ne have "32 \<le> unat (log2_floor n)" by simp
        then have "(2::nat) ^ 32 \<le> 2 ^ unat (log2_floor n)"
          by (rule power_increasing) simp
        with b(1) \<open>unat n < 2 ^ 32\<close> show False by simp
      qed
    qed
    moreover have "log2_floor n = word_of_nat (unat (log2_floor n))"
      by simp
    ultimately show "log2_floor n = 31"
      by simp
  qed
qed

theorem log2_floor_correct_witness:
  "(0x80000000 :: u32) \<noteq> 0 \<and>
   int (unat (log2_floor 0x80000000)) = \<lfloor>log 2 (real (unat (0x80000000 :: u32)))\<rfloor> \<and>
   2 ^ 31 \<le> unat (0x80000000 :: u32) \<and> log2_floor 0x80000000 = 31"
proof -
  have h: "(0x80000000 :: u32) \<noteq> 0"
    by simp
  have b: "2 ^ 31 \<le> unat (0x80000000 :: u32)"
    by simp
  from log2_floor_correct [OF h] h b show ?thesis
    by blast
qed

section \<open>The table after \<^verbatim>\<open>lj_str_hash_init_random\<close>\<close>

lemma POW2_MASK_mask: "POW2_MASK n = mask (nat n)"
  by (simp add: POW2_MASK_def mask_eq_exp_minus_1)

lemma masked_bound:
  fixes x :: u64
  shows "unat (ucast (x AND POW2_MASK n) :: u32) < 2 ^ nat n"
proof -
  have "unat (ucast (x AND POW2_MASK n) :: u32) \<le> unat (x AND POW2_MASK n)"
    by (simp add: unsigned_ucast_eq take_bit_nat_def)
  also have "unat (x AND POW2_MASK n) < 2 ^ nat n"
    unfolding POW2_MASK_mask
    by (simp flip: take_bit_eq_mask add: unsigned_take_bit_eq)
  finally show ?thesis .
qed

lemma sint_small:
  fixes w :: u32
  assumes "unat w < 2 ^ 31"
  shows "sint w = int (unat w)"
proof -
  have "int (unat w) < int (2 ^ 31)"
    using assms by (rule of_nat_less_iff [THEN iffD2])
  then have u: "uint w < 2 ^ 31"
    by simp
  have "sint w = signed_take_bit 31 (uint w)"
    by (simp add: sint_uint)
  also have "\<dots> = uint w"
  proof (rule signed_take_bit_int_eq_self)
    have "- (2 ^ 31) \<le> (0::int)" by simp
    also have "0 \<le> uint w" by simp
    finally show "- (2 ^ 31) \<le> uint w" .
    show "uint w < 2 ^ 31" by (rule u)
  qed
  finally show ?thesis by simp
qed

lemma rml_range: "- 1 \<le> sint (log2_floor RM) \<and> sint (log2_floor RM) \<le> 31"
proof (cases "RM = 0")
  case True
  then show ?thesis
    by (simp add: log2_floor_def log2_tab_def)
next
  case False
  have "unat RM < 2 ^ 32"
    using unsigned_less [of RM, where ?'a = nat] by simp
  have lt: "unat (log2_floor RM) < 32"
  proof (rule ccontr)
    assume "\<not> unat (log2_floor RM) < 32"
    then have "32 \<le> unat (log2_floor RM)" by simp
    then have "(2::nat) ^ 32 \<le> 2 ^ unat (log2_floor RM)"
      by (rule power_increasing) simp
    with log2_floor_bounds [OF False] \<open>unat RM < 2 ^ 32\<close> show False by simp
  qed
  then have "sint (log2_floor RM) = int (unat (log2_floor RM))"
    by (intro sint_small) simp
  then have eq: "sint (log2_floor RM) = uint (log2_floor RM)"
    by simp
  have "int (unat (log2_floor RM)) < int 32"
    using lt by (rule of_nat_less_iff [THEN iffD2])
  then have hi: "uint (log2_floor RM) < 32"
    by simp
  have lo: "0 \<le> uint (log2_floor RM)"
    by simp
  from eq hi lo show ?thesis
    by linarith
qed

lemma init_zero_loop_0:
  "\<exists>t'. init_zero_loop 0 t = Some (3, t') \<and> tab_ok 3 t' \<and> (\<forall>k \<ge> 3. t' k = t k)"
  by (simp add: init_zero_loop.simps tab_set_def tab_ok_def cell_ok_def less_Suc_eq numeral_3_eq_3)

lemma tab_set_Some:
  "0 \<le> i \<Longrightarrow> i < 32 \<Longrightarrow> j \<in> {0, 1} \<Longrightarrow>
   tab_set t i j v = Some (t(nat i := (t (nat i))(nat j := v)))"
  by (auto simp: tab_set_def)

lemma tab_ok_row:
  assumes "tab_ok n t" and "3 \<le> n"
    and "unat a < 2 ^ (n + 1)" and "unat b < 2 ^ (n + 1)"
  shows "tab_ok (Suc n) (t(n := (t n)(0 := a, Suc 0 := b)))"
  unfolding tab_ok_def cell_ok_def
proof (intro allI impI)
  fix k j :: nat
  assume "k < Suc n" "j < 2"
  then consider "k < n" | "k = n" "j = 0" | "k = n" "j = Suc 0"
    by (auto simp: less_Suc_eq numeral_2_eq_2)
  then show "unat ((t(n := (t n)(0 := a, Suc 0 := b))) k j) < 2 ^ (k + 1) \<and>
             (k < 3 \<longrightarrow> (t(n := (t n)(0 := a, Suc 0 := b))) k j = 0)"
  proof cases
    case 1
    then show ?thesis
      using assms(1) \<open>j < 2\<close> by (simp add: tab_ok_def cell_ok_def)
  next
    case 2
    then show ?thesis using assms(2,3) by simp
  next
    case 3
    then show ?thesis using assms(2,4) by simp
  qed
qed

lemma init_mask_loop_ok:
  "3 \<le> i \<Longrightarrow> rml \<le> 32 \<Longrightarrow> tab_ok (nat i) t \<Longrightarrow>
   \<exists>t' r'. init_mask_loop gen rml i t r = Some (max i rml, t', r') \<and> tab_ok (nat (max i rml)) t'"
proof (induction gen rml i t r rule: init_mask_loop.induct)
  case (1 gen rml i t r)
  show ?case
  proof (cases "i < rml")
    case False
    then show ?thesis
      using "1.prems" by (simp add: init_mask_loop.simps max_def)
  next
    case True
    obtain x r1 where r1: "random gen r = (x, r1)" by (cases "random gen r")
    obtain y r2 where r2: "random gen r1 = (y, r2)" by (cases "random gen r1")
    define a where "a = (ucast (x AND POW2_MASK (i + 1)) :: u32)"
    define b where "b = (ucast (y AND POW2_MASK (i + 1)) :: u32)"
    define t1 where "t1 = t(nat i := (t (nat i))(0 := a))"
    define t2 where "t2 = t1(nat i := (t1 (nat i))(Suc 0 := b))"
    have i32: "0 \<le> i" "i < 32" using True "1.prems" by simp_all
    have s1: "tab_set t i 0 a = Some t1"
      using tab_set_Some [OF i32, of 0 t a] by (simp add: t1_def)
    have s2: "tab_set t1 i 1 b = Some t2"
      using tab_set_Some [OF i32, of 1 t1 b] by (simp add: t2_def)
    have t2_eq: "t2 = t(nat i := (t (nat i))(0 := a, Suc 0 := b))"
      by (simp add: t2_def t1_def)
    have "nat (i + 1) = nat i + 1" using i32 by simp
    then have ab: "unat a < 2 ^ (nat i + 1)" "unat b < 2 ^ (nat i + 1)"
      using masked_bound [of x "i + 1"] masked_bound [of y "i + 1"] by (simp_all add: a_def b_def)
    have ok2: "tab_ok (nat (i + 1)) t2"
      using tab_ok_row [OF "1.prems"(3) _ ab] "1.prems"(1) i32
      by (simp add: t2_eq nat_add_distrib)
    have unfold: "init_mask_loop gen rml i t r = init_mask_loop gen rml (i + 1) t2 r2"
      using True by (subst init_mask_loop.simps) (simp add: r1 r2 s1 s2 a_def [symmetric] b_def [symmetric])
    have "\<exists>t' r'. init_mask_loop gen rml (i + 1) t2 r2 = Some (max (i + 1) rml, t', r') \<and>
            tab_ok (nat (max (i + 1) rml)) t'"
      using "1.IH" [OF True r1 [symmetric] refl s1 [unfolded a_def] r2[symmetric] refl s2[unfolded b_def]] "1.prems" ok2
      by simp
    moreover have "max (i + 1) rml = max i rml" using True by simp
    ultimately show ?thesis by (simp add: unfold)
  qed
qed


lemma init_scale_inner_ok:
  assumes i: "3 \<le> i" "i < 31" and idx: "0 \<le> i - rml" "i - rml < 32" and ok: "tab_ok (nat i) t"
  shows "\<exists>t' r'. init_scale_inner gen rml i 0 t r = Some (t', r') \<and> tab_ok (nat (i + 1)) t'"
proof -
  obtain x r1 where r1: "random gen r = (x, r1)" by (cases "random gen r")
  obtain y r2 where r2: "random gen r1 = (y, r2)" by (cases "random gen r1")
  define sc where "sc = (if t (nat (i - rml)) 0 = 0 then 1 else t (nat (i - rml)) 0)"
  define a where "a = (ucast ((x * ucast sc) AND POW2_MASK (i + 1)) :: u32)"
  define t1 where "t1 = t(nat i := (t (nat i))(0 := a))"
  define sc' where "sc' = (if t1 (nat (i - rml)) 0 = 0 then 1 else t1 (nat (i - rml)) 0)"
  define b where "b = (ucast ((y * ucast sc') AND POW2_MASK (i + 1)) :: u32)"
  define t2 where "t2 = t1(nat i := (t1 (nat i))(Suc 0 := b))"
  have i32: "0 \<le> i" "i < 32" using i by simp_all
  have g1: "tab_get t (i - rml) 0 = Some (t (nat (i - rml)) 0)"
    using idx by (simp add: tab_get_def)
  have g2: "tab_get t1 (i - rml) 0 = Some (t1 (nat (i - rml)) 0)"
    using idx by (simp add: tab_get_def)
  have s1: "tab_set t i 0 a = Some t1"
    using tab_set_Some [OF i32, of 0 t a] by (simp add: t1_def)
  have s2: "tab_set t1 i 1 b = Some t2"
    using tab_set_Some [OF i32, of 1 t1 b] by (simp add: t2_def)
  have step2: "init_scale_inner gen rml i 2 t2 r2 = Some (t2, r2)"
    by (subst init_scale_inner.simps) simp
  have step1: "init_scale_inner gen rml i 1 t1 r1 = Some (t2, r2)"
    by (subst init_scale_inner.simps)
       (simp add: g2 r2 s2 step2 sc'_def [symmetric] b_def [symmetric])
  have step0: "init_scale_inner gen rml i 0 t r = Some (t2, r2)"
    by (subst init_scale_inner.simps)
       (simp add: g1 r1 s1 step1 sc_def [symmetric] a_def [symmetric])
  have t2_eq: "t2 = t(nat i := (t (nat i))(0 := a, Suc 0 := b))"
    by (simp add: t2_def t1_def)
  have "nat (i + 1) = nat i + 1" using i32 by simp
  then have ab: "unat a < 2 ^ (nat i + 1)" "unat b < 2 ^ (nat i + 1)"
    using masked_bound [of "x * ucast sc" "i + 1"] masked_bound [of "y * ucast sc'" "i + 1"]
    by (simp_all add: a_def b_def)
  have "tab_ok (nat (i + 1)) t2"
    using tab_ok_row [OF ok _ ab] i by (simp add: t2_eq nat_add_distrib)
  with step0 show ?thesis by simp
qed

lemma init_scale_loop_ok:
  "3 \<le> i \<Longrightarrow> rml \<le> i \<Longrightarrow> - 1 \<le> rml \<Longrightarrow> tab_ok (nat i) t \<Longrightarrow>
   \<exists>t' r'. init_scale_loop gen rml i t r = Some (t', r') \<and> tab_ok 31 t'"
proof (induction gen rml i t r rule: init_scale_loop.induct)
  case (1 gen rml i t r)
  show ?case
  proof (cases "i < 31")
    case False
    then have "31 \<le> nat i" by simp
    with "1.prems"(4) have "tab_ok 31 t" by (simp add: tab_ok_def)
    with False show ?thesis by (simp add: init_scale_loop.simps)
  next
    case True
    obtain t1 r1 where inner: "init_scale_inner gen rml i 0 t r = Some (t1, r1)"
      and ok1: "tab_ok (nat (i + 1)) t1"
      using init_scale_inner_ok [OF "1.prems"(1) True _ _ "1.prems"(4), of rml gen r] "1.prems"(2,3) True
      by auto
    have "\<exists>t' r'. init_scale_loop gen rml (i + 1) t1 r1 = Some (t', r') \<and> tab_ok 31 t'"
      using "1.IH" [OF True inner refl] "1.prems" ok1 by simp
    moreover have "init_scale_loop gen rml i t r = init_scale_loop gen rml (i + 1) t1 r1"
      using True by (subst init_scale_loop.simps) (simp add: inner)
    ultimately show ?thesis by simp
  qed
qed

lemma srandom_seedings: "rng_seedings (srandom seed r) = rng_seedings r + 1"
  by (simp add: srandom_def)

lemma random_seedings: "random gen r = (x, r') \<Longrightarrow> rng_seedings r' = rng_seedings r"
  by (auto simp: random_def)

lemma lj_str_hash_init_random_ok:
  "\<exists>t' r'. lj_str_hash_init_random c32 RM gen pid now t r = Some (t', r') \<and> tab_ok 31 t'"
proof -
  define rml0 where "rml0 = sint (log2_floor RM)"
  define rml where "rml = (if RM AND (RM - 1) \<noteq> 0 then rml0 + 1 else rml0)"
  define r0 where "r0 = srandom (c32 (c32 0 pid) (ucast now)) r"
  have rng: "- 1 \<le> rml" "rml \<le> 32"
    using rml_range [of RM] by (simp_all add: rml_def rml0_def)
  obtain t1 where z: "init_zero_loop 0 t = Some (3, t1)" and ok1: "tab_ok 3 t1"
    using init_zero_loop_0 [of t] by blast
  obtain t2 r2 where m: "init_mask_loop gen rml 3 t1 r0 = Some (max 3 rml, t2, r2)"
    and ok2: "tab_ok (nat (max 3 rml)) t2"
    using init_mask_loop_ok [of 3 rml t1 gen r0] rng ok1 by auto
  obtain t3 r3 where sc: "init_scale_loop gen rml (max 3 rml) t2 r2 = Some (t3, r3)"
    and ok3: "tab_ok 31 t3"
    using init_scale_loop_ok [of "max 3 rml" rml t2 gen r2] rng ok2 by auto
  have "lj_str_hash_init_random c32 RM gen pid now t r = Some (t3, r3)"
    by (simp add: lj_str_hash_init_random_def Let_def rml0_def [symmetric] rml_def [symmetric]
        r0_def [symmetric] z m sc)
  with ok3 show ?thesis by simp
qed

text \<open>What the loops leave alone: the rows below the counter and the count of seedings.\<close>

lemma tab_set_frame: "tab_set t i j v = Some t' \<Longrightarrow> k \<noteq> nat i \<Longrightarrow> t' k = t k"
  by (auto simp: tab_set_def split: if_splits)

lemma init_mask_loop_frame:
  "init_mask_loop gen rml i t r = Some (i', t', r') \<Longrightarrow> 0 \<le> i \<Longrightarrow>
   rng_seedings r' = rng_seedings r \<and> (\<forall>k < nat i. t' k = t k)"
proof (induction gen rml i t r rule: init_mask_loop.induct)
  case (1 gen rml i t r)
  show ?case
  proof (cases "i < rml")
    case False
    then show ?thesis
      using "1.prems" by (simp add: init_mask_loop.simps)
  next
    case True
    obtain x r1 where r1: "random gen r = (x, r1)" by (cases "random gen r")
    obtain y r2 where r2: "random gen r1 = (y, r2)" by (cases "random gen r1")
    from "1.prems"(1) True obtain t1 t2 where
      s1: "tab_set t i 0 (ucast (x AND POW2_MASK (i + 1))) = Some t1" and
      s2: "tab_set t1 i 1 (ucast (y AND POW2_MASK (i + 1))) = Some t2" and
      rec: "init_mask_loop gen rml (i + 1) t2 r2 = Some (i', t', r')"
      by (subst (asm) init_mask_loop.simps) (auto simp: r1 r2 bind_eq_Some_conv)
    have ih: "rng_seedings r' = rng_seedings r2 \<and> (\<forall>k < nat (i + 1). t' k = t2 k)"
      using "1.IH" [OF True r1 [symmetric] refl s1 r2 [symmetric] refl s2 rec] "1.prems"(2) by simp
    have "t2 k = t k" if "k < nat i" for k
      using tab_set_frame [OF s1, of k] tab_set_frame [OF s2, of k] that by simp
    then show ?thesis
      using ih random_seedings [OF r1] random_seedings [OF r2] by simp
  qed
qed

lemma init_scale_inner_frame:
  "init_scale_inner gen rml i j t r = Some (t', r') \<Longrightarrow>
   rng_seedings r' = rng_seedings r \<and> (\<forall>k. k \<noteq> nat i \<longrightarrow> t' k = t k)"
proof (induction gen rml i j t r rule: init_scale_inner.induct)
  case (1 gen rml i j t r)
  show ?case
  proof (cases "j < 2")
    case False
    then show ?thesis
      using "1.prems" by (simp add: init_scale_inner.simps)
  next
    case True
    obtain x r1 where r1: "random gen r = (x, r1)" by (cases "random gen r")
    from "1.prems"(1) True obtain sc t1 where
      g: "tab_get t (i - rml) 0 = Some sc" and
      s1: "tab_set t i j (ucast ((x * ucast (if sc = 0 then 1 else sc)) AND POW2_MASK (i + 1))) = Some t1" and
      rec: "init_scale_inner gen rml i (j + 1) t1 r1 = Some (t', r')"
      by (subst (asm) init_scale_inner.simps) (auto simp: r1 bind_eq_Some_conv Let_def)
    have ih: "rng_seedings r' = rng_seedings r1 \<and> (\<forall>k. k \<noteq> nat i \<longrightarrow> t' k = t1 k)"
      using "1.IH" [OF True g refl r1 [symmetric] refl refl s1 rec] by simp
    then show ?thesis
      using tab_set_frame [OF s1] random_seedings [OF r1] by simp
  qed
qed

lemma init_scale_loop_frame:
  "init_scale_loop gen rml i t r = Some (t', r') \<Longrightarrow> 0 \<le> i \<Longrightarrow>
   rng_seedings r' = rng_seedings r \<and> (\<forall>k < nat i. t' k = t k)"
proof (induction gen rml i t r rule: init_scale_loop.induct)
  case (1 gen rml i t r)
  show ?case
  proof (cases "i < 31")
    case False
    then show ?thesis
      using "1.prems" by (simp add: init_scale_loop.simps)
  next
    case True
    from "1.prems"(1) True obtain t1 r1 where
      inner: "init_scale_inner gen rml i 0 t r = Some (t1, r1)" and
      rec: "init_scale_loop gen rml (i + 1) t1 r1 = Some (t', r')"
      by (subst (asm) init_scale_loop.simps) (auto simp: bind_eq_Some_conv)
    have ih: "rng_seedings r' = rng_seedings r1 \<and> (\<forall>k < nat (i + 1). t' k = t1 k)"
      using "1.IH" [OF True inner refl rec] "1.prems"(2) by simp
    then show ?thesis
      using init_scale_inner_frame [OF inner] by simp
  qed
qed


lemma lj_str_hash_init_random_parts:
  assumes "lj_str_hash_init_random c32 RM gen pid now t r = Some (t', r')"
  defines "rml \<equiv> (if RM AND (RM - 1) \<noteq> 0 then sint (log2_floor RM) + 1 else sint (log2_floor RM))"
    and "r0 \<equiv> srandom (c32 (c32 0 pid) (ucast now)) r"
  shows "\<exists>t1 t2 r2. init_zero_loop 0 t = Some (3, t1) \<and> tab_ok 3 t1 \<and>
           init_mask_loop gen rml 3 t1 r0 = Some (max 3 rml, t2, r2) \<and>
           init_scale_loop gen rml (max 3 rml) t2 r2 = Some (t', r')"
proof -
  have rng: "- 1 \<le> rml" "rml \<le> 32"
    using rml_range [of RM] by (simp_all add: rml_def)
  obtain t1 where z: "init_zero_loop 0 t = Some (3, t1)" and ok1: "tab_ok 3 t1"
    using init_zero_loop_0 [of t] by blast
  obtain t2 r2 where m: "init_mask_loop gen rml 3 t1 r0 = Some (max 3 rml, t2, r2)"
    using init_mask_loop_ok [of 3 rml t1 gen r0] rng ok1 by auto
  have "init_scale_loop gen rml (max 3 rml) t2 r2 = Some (t', r')"
    using assms(1)
    by (simp add: lj_str_hash_init_random_def Let_def rml_def [symmetric] r0_def [symmetric] z m)
  with z ok1 m show ?thesis by blast
qed

lemma lj_str_hash_init_random_seedings:
  assumes "lj_str_hash_init_random c32 RM gen pid now t r = Some (t', r')"
  shows "rng_seedings r' = rng_seedings r + 1"
proof -
  from lj_str_hash_init_random_parts [OF assms] obtain rml t1 t2 r2 where
    m: "init_mask_loop gen rml 3 t1 (srandom (c32 (c32 0 pid) (ucast now)) r) = Some (max 3 rml, t2, r2)"
    and sc: "init_scale_loop gen rml (max 3 rml) t2 r2 = Some (t', r')"
    by blast
  show ?thesis
    using init_mask_loop_frame [OF m] init_scale_loop_frame [OF sc]
    by (simp add: srandom_def)
qed

lemma lj_str_hash_init_random_row3:
  assumes run: "lj_str_hash_init_random c32 RM gen pid now t r = Some (t', r')"
    and rml: "3 < (if RM AND (RM - 1) \<noteq> 0 then sint (log2_floor RM) + 1 else sint (log2_floor RM))"
  shows "t' 3 0 = ucast (gen (c32 (c32 0 pid) (ucast now)) 0 AND POW2_MASK 4)"
proof -
  define rml where "rml = (if RM AND (RM - 1) \<noteq> 0 then sint (log2_floor RM) + 1 else sint (log2_floor RM))"
  define seed where "seed = c32 (c32 0 pid) (ucast now)"
  define r0 where "r0 = srandom seed r"
  from lj_str_hash_init_random_parts [OF run] obtain t1 t2 r2 where
    m: "init_mask_loop gen rml 3 t1 r0 = Some (max 3 rml, t2, r2)"
    and sc: "init_scale_loop gen rml (max 3 rml) t2 r2 = Some (t', r')"
    unfolding rml_def r0_def seed_def by blast
  have lt: "3 < rml" using rml by (simp add: rml_def)
  obtain x r1 where r1: "random gen r0 = (x, r1)" by (cases "random gen r0")
  obtain y r1' where r1': "random gen r1 = (y, r1')" by (cases "random gen r1")
  have x: "x = gen seed 0"
    using r1 by (auto simp: random_def r0_def srandom_def)
  from m lt obtain ta tb where
    s1: "tab_set t1 3 0 (ucast (x AND POW2_MASK 4)) = Some ta" and
    s2: "tab_set ta 3 1 (ucast (y AND POW2_MASK 4)) = Some tb" and
    rec: "init_mask_loop gen rml 4 tb r1' = Some (max 3 rml, t2, r2)"
    by (subst (asm) init_mask_loop.simps) (auto simp: r1 r1' bind_eq_Some_conv)
  have "tb 3 0 = ucast (x AND POW2_MASK 4)"
    using s1 s2 by (auto simp: tab_set_def)
  moreover have "t2 3 = tb 3"
    using init_mask_loop_frame [OF rec] by simp
  moreover have "t' 3 = t2 3"
    using init_scale_loop_frame [OF sc] lt by simp
  ultimately show ?thesis
    by (simp add: x seed_def)
qed

text \<open>
  C3: after \<^verbatim>\<open>lj_str_hash_init_random\<close>, which returns for every \<open>RAND_MAX\<close>, generator,
  process id, clock and earlier table, every cell of the orders 0 to 30 is below
  \<open>2^(order+1)\<close> in both slots (and not negative, being unsigned), and every cell of an
  order under 3 is 0.
\<close>

theorem init_random_table_bounds:
  "\<exists>t' r'. lj_str_hash_init_random c32 RM gen pid now t r = Some (t', r') \<and>
     (\<forall>order \<le> 30. \<forall>slot < 2.
        unat (t' order slot) < 2 ^ (order + 1) \<and> (order < 3 \<longrightarrow> t' order slot = 0))"
proof -
  obtain t' r' where "lj_str_hash_init_random c32 RM gen pid now t r = Some (t', r')"
    and "tab_ok 31 t'"
    using lj_str_hash_init_random_ok by blast
  then show ?thesis
    by (auto simp: tab_ok_def cell_ok_def)
qed

theorem init_random_table_bounds_witness:
  "\<exists>t' r'. lj_str_hash_init_random crc32c_u32 0x7FFFFFFF (\<lambda>seed k. 5) 1234 1700000000 (\<lambda>i j. 0)
        \<lparr>rng_seed = 1, rng_draws = 0, rng_seedings = 0\<rparr> = Some (t', r') \<and>
     unat (t' 30 1) < 2 ^ (30 + 1) \<and> t' 2 0 = 0"
proof -
  obtain t' r' where run: "lj_str_hash_init_random crc32c_u32 0x7FFFFFFF (\<lambda>seed k. 5) 1234 1700000000
        (\<lambda>i j. 0) \<lparr>rng_seed = 1, rng_draws = 0, rng_seedings = 0\<rparr> = Some (t', r')"
    and all: "\<forall>order \<le> 30. \<forall>slot < 2.
        unat (t' order slot) < 2 ^ (order + 1) \<and> (order < 3 \<longrightarrow> t' order slot = 0)"
    using init_random_table_bounds by blast
  have "unat (t' 30 1) < 2 ^ (30 + 1)"
    using all [rule_format, of 30 1] by simp
  moreover have "t' 2 0 = 0"
    using all [rule_format, of 2 0] by simp
  ultimately show ?thesis
    using run by blast
qed

text \<open>
  C4 says that every cell of the orders 3 to 30 is at least \<open>2^order\<close>, as the comment
  above \<^verbatim>\<open>lj_str_hash_init_random\<close> does. The code only masks the draw, so a draw whose
  bit \<open>order\<close> is clear gives a smaller cell: with \<open>RAND_MAX = 2^31 - 1\<close> and a first draw
  of 5, the cell of order 3, slot 0, is 5, below 8.
\<close>

theorem init_random_cell_below_band:
  "map_option (\<lambda>(t', r'). unat (t' 3 0))
     (lj_str_hash_init_random crc32c_u32 0x7FFFFFFF (\<lambda>seed k. 5) 1234 1700000000 (\<lambda>i j. 0)
        \<lparr>rng_seed = 1, rng_draws = 0, rng_seedings = 0\<rparr>) = Some 5"
proof -
  obtain t' r' where run: "lj_str_hash_init_random crc32c_u32 0x7FFFFFFF (\<lambda>seed k. 5) 1234 1700000000
        (\<lambda>i j. 0) \<lparr>rng_seed = 1, rng_draws = 0, rng_seedings = 0\<rparr> = Some (t', r')"
    using lj_str_hash_init_random_ok by blast
  have "log2_floor 0x7FFFFFFF = 30"
    by (simp add: log2_floor_def log2_tab_def)
  then have "t' 3 0 = ucast ((5 :: u64) AND POW2_MASK 4)"
    using lj_str_hash_init_random_row3 [OF run] by simp
  then have "unat (t' 3 0) = 5"
    by (simp add: POW2_MASK_def)
  with run show ?thesis by simp
qed

section \<open>The portable routine\<close>

text \<open>
  C7: for every buffer and every length from 1 to 3, \<^verbatim>\<open>lj_str_hash_orig\<close> and
  \<^verbatim>\<open>lj_str_hash_1_4\<close> agree: the same value from the same three byte reads (and both
  fail when the buffer is shorter than the length).
\<close>

theorem orig_agrees_with_1_4:
  fixes L :: u64
  assumes "1 \<le> L" "L \<le> 3"
  shows "lj_str_hash_orig str L tr = lj_str_hash_1_4 str (ucast L) tr"
proof -
  have "1 \<le> unat L" "unat L \<le> 3"
    using assms by (simp_all add: word_le_nat_alt)
  moreover have "unat (ucast L :: u32) = unat L mod 2 ^ 32"
    by (simp add: unsigned_ucast_eq take_bit_eq_mod)
  ultimately have len: "1 \<le> unat (ucast L :: u32)" "unat (ucast L :: u32) \<le> 3"
    by simp_all
  then have "\<not> 4 \<le> (ucast L :: u32)" and "0 < (ucast L :: u32)"
    by (simp_all add: word_le_nat_alt word_less_nat_alt)
  then show ?thesis
    by (simp add: lj_str_hash_orig_def lj_str_hash_1_4_def Let_def)
qed

theorem orig_agrees_with_1_4_witness:
  "(1 :: u64) \<le> 2 \<and> (2 :: u64) \<le> 3 \<and>
   lj_str_hash_orig [0x61, 0x62] 2 [] = lj_str_hash_1_4 [0x61, 0x62] (ucast (2 :: u64)) []"
  using orig_agrees_with_1_4 [of 2 "[0x61, 0x62]" "[]"] by simp

text \<open>
  C8: called with length 0, \<^verbatim>\<open>lj_str_hash_orig\<close> returns 0 for every buffer and reads
  nothing (the log of reads is returned as it was). The dispatcher of the accelerated
  path does not accept that input: with length 0 it reads the byte before the buffer.
\<close>

theorem orig_empty_input:
  "lj_str_hash_orig str 0 tr = Some (0, tr) \<and> lj_str_hash_crc32 c32 c64 t str 0 tr = None"
  by (simp add: lj_str_hash_orig_def lj_str_hash_crc32_def lj_str_hash_1_4_def rd8_def load_def
      split: option.splits)

section \<open>Selection\<close>

lemma lj_init_strhashfn_again:
  assumes "strhashfn s = Some f"
  shows "lj_init_strhashfn c32 RM gen hw pid now s g = Some (s, g\<lparr>g_strhashfn := Some f\<rparr>)"
  using assms by (simp add: lj_init_strhashfn_def)

lemma lj_init_strhashfn_first:
  assumes "strhashfn s = None"
  shows "\<exists>s' f. lj_init_strhashfn c32 RM gen hw pid now s g = Some (s', g\<lparr>g_strhashfn := Some f\<rparr>) \<and>
           strhashfn s' = Some f \<and> f \<in> {Fn_lj_str_hash_crc32, Fn_lj_str_hash_orig} \<and>
           rng_seedings (rng s') =
             rng_seedings (rng s) + (if f = Fn_lj_str_hash_crc32 then 1 else 0)"
proof (cases "lj_check_crc32_support hw")
  case True
  obtain t' r' where run: "lj_str_hash_init_random c32 RM gen pid now (random_pos s) (rng s) = Some (t', r')"
    using lj_str_hash_init_random_ok by blast
  with True assms lj_str_hash_init_random_seedings [OF run] show ?thesis
    by (simp add: lj_init_strhashfn_def)
next
  case False
  with assms show ?thesis
    by (simp add: lj_init_strhashfn_def)
qed

lemma lj_init_strhashfn_calls_again:
  assumes "strhashfn s = Some f"
  shows "\<exists>rest. lj_init_strhashfn_calls c32 RM gen cs s = Some rest \<and> length rest = length cs \<and>
           (\<forall>(s', g') \<in> set rest. s' = s \<and> g_strhashfn g' = Some f)"
proof (induction cs)
  case Nil
  show ?case by simp
next
  case (Cons c cs)
  obtain hw pid now g where c: "c = (hw, pid, now, g)" by (cases c)
  from Cons.IH obtain rest where "lj_init_strhashfn_calls c32 RM gen cs s = Some rest"
    "length rest = length cs" "\<forall>(s', g') \<in> set rest. s' = s \<and> g_strhashfn g' = Some f"
    by blast
  then show ?case
    by (simp add: c lj_init_strhashfn_again [OF assms])
qed

text \<open>
  C9: in any sequence of calls of \<^verbatim>\<open>lj_init_strhashfn\<close> that starts with the selection
  unset, the first call sets it to one of the two routines and publishes it; every
  later call finds the statics as the first call left them and leaves them so (the
  selection, the table and the generator, so \<^verbatim>\<open>lj_str_hash_init_random\<close> is not run again:
  the generator is seeded once when the accelerated routine is chosen and never
  otherwise), and publishes the same routine.
\<close>

theorem selection_assigned_once:
  assumes "strhashfn s0 = None"
  shows "\<exists>f s1 g1 rest.
           lj_init_strhashfn_calls c32 RM gen (c # cs) s0 = Some ((s1, g1) # rest) \<and>
           f \<in> {Fn_lj_str_hash_crc32, Fn_lj_str_hash_orig} \<and>
           strhashfn s1 = Some f \<and> g_strhashfn g1 = Some f \<and>
           rng_seedings (rng s1) =
             rng_seedings (rng s0) + (if f = Fn_lj_str_hash_crc32 then 1 else 0) \<and>
           length rest = length cs \<and>
           (\<forall>(s, g) \<in> set rest. s = s1 \<and> g_strhashfn g = Some f)"
proof -
  obtain hw pid now g where c: "c = (hw, pid, now, g)" by (cases c)
  obtain s1 f where first: "lj_init_strhashfn c32 RM gen hw pid now s0 g = Some (s1, g\<lparr>g_strhashfn := Some f\<rparr>)"
    and f: "strhashfn s1 = Some f" "f \<in> {Fn_lj_str_hash_crc32, Fn_lj_str_hash_orig}"
      "rng_seedings (rng s1) = rng_seedings (rng s0) + (if f = Fn_lj_str_hash_crc32 then 1 else 0)"
    using lj_init_strhashfn_first [OF assms] by blast
  obtain rest where rest: "lj_init_strhashfn_calls c32 RM gen cs s1 = Some rest"
    "length rest = length cs" "\<forall>(s', g') \<in> set rest. s' = s1 \<and> g_strhashfn g' = Some f"
    using lj_init_strhashfn_calls_again [OF f(1)] by blast
  have "lj_init_strhashfn_calls c32 RM gen (c # cs) s0 = Some ((s1, g\<lparr>g_strhashfn := Some f\<rparr>) # rest)"
    by (simp add: c first rest(1))
  with f rest show ?thesis by simp
qed

theorem selection_assigned_once_witness:
  "strhashfn \<lparr>random_pos = (\<lambda>i j. 0), strhashfn = None,
      rng = \<lparr>rng_seed = 1, rng_draws = 0, rng_seedings = 0\<rparr>\<rparr> = None \<and>
   (\<exists>f s1 g1 rest.
      lj_init_strhashfn_calls crc32c_u32 0x7FFFFFFF (\<lambda>seed k. 5)
        [(X64 (Some (0, 0, 0x100000, 0)), 1234, 1700000000, \<lparr>g_strhashfn = None\<rparr>),
         (X64 None, 1234, 1700000001, \<lparr>g_strhashfn = None\<rparr>)]
        \<lparr>random_pos = (\<lambda>i j. 0), strhashfn = None,
          rng = \<lparr>rng_seed = 1, rng_draws = 0, rng_seedings = 0\<rparr>\<rparr> = Some ((s1, g1) # rest) \<and>
      f \<in> {Fn_lj_str_hash_crc32, Fn_lj_str_hash_orig} \<and>
      strhashfn s1 = Some f \<and> g_strhashfn g1 = Some f \<and>
      rng_seedings (rng s1) = 0 + (if f = Fn_lj_str_hash_crc32 then 1 else 0) \<and>
      length rest = 1 \<and>
      (\<forall>(s, g) \<in> set rest. s = s1 \<and> g_strhashfn g = Some f))"
  using selection_assigned_once [of "\<lparr>random_pos = (\<lambda>i j. 0), strhashfn = None,
      rng = \<lparr>rng_seed = 1, rng_draws = 0, rng_seedings = 0\<rparr>\<rparr>" crc32c_u32 "0x7FFFFFFF" "\<lambda>seed k. 5"
      "(X64 (Some (0, 0, 0x100000, 0)), 1234, 1700000000, \<lparr>g_strhashfn = None\<rparr>)"
      "[(X64 None, 1234, 1700000001, \<lparr>g_strhashfn = None\<rparr>)]"]
  by simp

section \<open>Reads of the routines under 128 bytes\<close>

lemma rd8_Some:
  "0 \<le> off \<Longrightarrow> off + 1 \<le> int (length str) \<Longrightarrow>
   rd8 str off tr = Some (le_word (take 1 (drop (nat off) str)), tr @ [(off, 1)])"
  by (simp add: rd8_def load_def)

lemma rd32_Some:
  "0 \<le> off \<Longrightarrow> off + 4 \<le> int (length str) \<Longrightarrow>
   rd32 str off tr = Some (le_word (take 4 (drop (nat off) str)), tr @ [(off, 4)])"
  by (simp add: rd32_def load_def)

lemma rd64_Some:
  "0 \<le> off \<Longrightarrow> off + 8 \<le> int (length str) \<Longrightarrow>
   rd64 str off tr = Some (le_word (take 8 (drop (nat off) str)), tr @ [(off, 8)])"
  by (simp add: rd64_def load_def)

lemma covers_append: "covers (tr @ tr') i \<longleftrightarrow> covers tr i \<or> covers tr' i"
  by (auto simp: covers_def)

lemma covers_single: "covers [(off, w)] i \<longleftrightarrow> off \<le> i \<and> i < off + int w"
  by (simp add: covers_def)

lemma covers_Cons: "covers ((off, w) # tr) i \<longleftrightarrow> (off \<le> i \<and> i < off + int w) \<or> covers tr i"
  by (auto simp: covers_def)

lemma covers_Nil: "\<not> covers [] i"
  by (simp add: covers_def)

lemma unat_sub_16:
  fixes len :: u32
  assumes "16 \<le> unat len"
  shows "unat (len - 16) = unat len - 16"
  using assms by (simp add: unat_sub word_le_nat_alt)

lemma lj_str_hash_16_128_loop_run:
  fixes len i :: u32
  assumes "16 \<le> unat len" "unat len \<le> length str"
  shows "\<exists>h1' h2' tr'. lj_str_hash_16_128_loop c64 str len i h1 h2 tr = Some (h1', h2', tr') \<and>
           (\<forall>j. covers tr j \<longrightarrow> covers tr' j) \<and>
           (\<forall>j. uint i \<le> j \<and> j < uint len - 16 \<longrightarrow> covers tr' j)"
proof (induction "unat len - unat i" arbitrary: i h1 h2 tr rule: less_induct)
  case less
  have ui: "uint i = int (unat i)" and ul: "uint len = int (unat len)"
    by simp_all
  show ?case
  proof (cases "i < len - 16")
    case False
    then have "\<not> unat i < unat len - 16"
      using assms(1) by (simp add: word_less_nat_alt unat_sub_16)
    then have none: "\<not> (uint i \<le> j \<and> j < uint len - 16)" for j
      unfolding ui ul by linarith
    have "lj_str_hash_16_128_loop c64 str len i h1 h2 tr = Some (h1, h2, tr)"
      using False by (subst lj_str_hash_16_128_loop.simps) simp
    with none show ?thesis
      by blast
  next
    case True
    then have lt: "unat i < unat len - 16"
      using assms(1) by (simp add: word_less_nat_alt unat_sub_16)
    have "unat len < 2 ^ 32"
      using unsigned_less [of len, where ?'a = nat] by simp
    with lt have "unat i + unat (16 :: u32) < 2 ^ LENGTH(32)"
      by simp
    then have i16: "unat (i + 16) = unat i + 16"
      using unat_add_lem [THEN iffD1, of i 16] by simp
    then have ui16: "uint (i + 16) = uint i + 16"
      by (metis of_nat_add of_nat_numeral of_nat_unat ui)
    define v where "v = (le_word (take 8 (drop (unat i) str)) :: u64)"
    define w where "w = (le_word (take 8 (drop (unat i + 8) str)) :: u64)"
    define tr2 where "tr2 = (tr @ [(uint i, 8)]) @ [(uint i + 8, 8)]"
    have inb: "uint i + 16 \<le> int (length str)"
      unfolding ui using lt assms(2) by linarith
    have r1: "rd64 str (uint i) tr = Some (v, tr @ [(uint i, 8)])"
      using rd64_Some [of "uint i" str tr] inb by (simp add: v_def)
    have "nat (uint i + 8) = unat i + 8"
      by (simp add: nat_add_distrib)
    then have r2: "rd64 str (uint i + 8) (tr @ [(uint i, 8)]) = Some (w, tr2)"
      using rd64_Some [of "uint i + 8" str "tr @ [(uint i, 8)]"] inb
      by (simp add: w_def tr2_def)
    have unfold: "lj_str_hash_16_128_loop c64 str len i h1 h2 tr =
        lj_str_hash_16_128_loop c64 str len (i + 16) (h1 + c64 h1 v) (h2 + c64 h2 w) tr2"
      using True by (subst lj_str_hash_16_128_loop.simps) (simp add: r1 r2)
    have "unat len - unat (i + 16) < unat len - unat i"
      using lt i16 by simp
    from less [OF this, of "h1 + c64 h1 v" "h2 + c64 h2 w" tr2]
    obtain h1' h2' tr' where
      run: "lj_str_hash_16_128_loop c64 str len (i + 16) (h1 + c64 h1 v) (h2 + c64 h2 w) tr2 = Some (h1', h2', tr')"
      and keep: "\<forall>j. covers tr2 j \<longrightarrow> covers tr' j"
      and new: "\<forall>j. uint (i + 16) \<le> j \<and> j < uint len - 16 \<longrightarrow> covers tr' j"
      by blast
    have c2: "covers tr2 j" if "covers tr j \<or> (uint i \<le> j \<and> j < uint i + 16)" for j
      using that by (auto simp: tr2_def covers_append covers_Cons covers_Nil)
    have "covers tr' j" if "uint i \<le> j" "j < uint len - 16" for j
    proof (cases "j < uint i + 16")
      case True
      with that c2 keep show ?thesis by blast
    next
      case False
      with that new ui16 show ?thesis by simp
    qed
    moreover have "covers tr' j" if "covers tr j" for j
      using that c2 keep by blast
    ultimately show ?thesis
      using run unfold by simp
  qed
qed


lemma lj_str_hash_16_128_accs_run:
  fixes len :: u32
  assumes "16 \<le> unat len" "unat len \<le> length str"
  shows "\<exists>h1 h2 tr1.
           lj_str_hash_16_128_loop c64 str len 0 (ucast (c32 0 len)) 0 tr = Some (h1, h2, tr1) \<and>
           (\<forall>j. 0 \<le> j \<and> j < uint len - 16 \<longrightarrow> covers tr1 j) \<and>
           lj_str_hash_16_128_accs c32 c64 str len tr =
             Some (c64 h1 (prev8 str len), c64 h2 (last8 str len),
                   tr1 @ [(uint len - 16, 8), (uint len - 8, 8)])"
proof -
  have ul: "uint len = int (unat len)"
    by simp
  obtain h1 h2 tr1 where
    loop: "lj_str_hash_16_128_loop c64 str len 0 (ucast (c32 0 len)) 0 tr = Some (h1, h2, tr1)"
    and cov: "\<forall>j. uint (0 :: u32) \<le> j \<and> j < uint len - 16 \<longrightarrow> covers tr1 j"
    using lj_str_hash_16_128_loop_run [OF assms, of c64 0 "ucast (c32 0 len)" 0 tr] by blast
  have inb: "0 \<le> uint len - 16" "uint len \<le> int (length str)"
    unfolding ul using assms by linarith+
  have n1: "nat (uint len - 16) = unat len - 16" and n2: "nat (uint len - 8) = unat len - 8"
    unfolding ul by linarith+
  have r1: "rd64 str (uint len - 16) tr1 = Some (prev8 str len, tr1 @ [(uint len - 16, 8)])"
    using rd64_Some [of "uint len - 16" str tr1] inb by (simp add: prev8_def n1)
  have r2: "rd64 str (uint len - 8) (tr1 @ [(uint len - 16, 8)]) =
      Some (last8 str len, tr1 @ [(uint len - 16, 8), (uint len - 8, 8)])"
    using rd64_Some [of "uint len - 8" str "tr1 @ [(uint len - 16, 8)]"] inb
    by (simp add: last8_def n2)
  have "lj_str_hash_16_128_accs c32 c64 str len tr =
      Some (c64 h1 (prev8 str len), c64 h2 (last8 str len),
            tr1 @ [(uint len - 16, 8), (uint len - 8, 8)])"
    by (simp add: lj_str_hash_16_128_accs_def loop r1 r2)
  with loop cov show ?thesis
    by simp
qed

lemma lj_str_hash_16_128_covers:
  fixes len :: u32
  assumes "16 \<le> unat len" "unat len \<le> length str" "i < unat len"
  shows "\<exists>h tr'. lj_str_hash_16_128 c32 c64 str len tr = Some (h, tr') \<and> covers tr' (int i)"
proof -
  have ul: "uint len = int (unat len)"
    by simp
  obtain h1 h2 tr1 where
    cov: "\<forall>j. 0 \<le> j \<and> j < uint len - 16 \<longrightarrow> covers tr1 j"
    and accs: "lj_str_hash_16_128_accs c32 c64 str len tr =
             Some (c64 h1 (prev8 str len), c64 h2 (last8 str len),
                   tr1 @ [(uint len - 16, 8), (uint len - 8, 8)])"
    using lj_str_hash_16_128_accs_run [OF assms(1,2), of c64 c32 tr] by blast
  have run: "lj_str_hash_16_128 c32 c64 str len tr =
             Some (c32 (ucast (c64 h1 (prev8 str len))) (ucast (c64 h2 (last8 str len))),
                   tr1 @ [(uint len - 16, 8), (uint len - 8, 8)])"
    by (simp add: lj_str_hash_16_128_def accs)
  have "covers (tr1 @ [(uint len - 16, 8), (uint len - 8, 8)]) (int i)"
  proof (cases "int i < uint len - 16")
    case True
    then show ?thesis
      using cov by (simp add: covers_append)
  next
    case False
    moreover have "int i < uint len"
      unfolding ul using assms(3) by linarith
    ultimately show ?thesis
      by (auto simp: covers_append covers_Cons covers_Nil)
  qed
  with run show ?thesis
    by simp
qed

lemma lj_str_hash_4_16_covers:
  fixes len :: u32
  assumes "4 \<le> unat len" "unat len \<le> 15" "unat len \<le> length str" "i < unat len"
  shows "\<exists>h tr'. lj_str_hash_4_16 c32 c64 str len tr = Some (h, tr') \<and> covers tr' (int i)"
proof -
  have ul: "uint len = int (unat len)"
    by simp
  have ii: "int i < uint len" and ll: "uint len \<le> int (length str)"
    unfolding ul using assms by linarith+
  show ?thesis
  proof (cases "len \<ge> 8")
    case True
    then have "8 \<le> unat len"
      by (simp add: word_le_nat_alt)
    then have inb: "0 \<le> uint len - 8" "uint len \<le> 15"
      unfolding ul using assms(2) by linarith+
    have r1: "rd64 str 0 tr = Some (le_word (take 8 (drop (nat 0) str)), tr @ [(0, 8)])"
      using rd64_Some [of 0 str tr] inb ll by simp
    have r2: "rd64 str (uint len - 8) (tr @ [(0, 8)]) =
        Some (le_word (take 8 (drop (nat (uint len - 8)) str)), (tr @ [(0, 8)]) @ [(uint len - 8, 8)])"
      using rd64_Some [of "uint len - 8" str "tr @ [(0, 8)]"] inb ll by simp
    have "covers ((tr @ [(0, 8)]) @ [(uint len - 8, 8)]) (int i)"
      using ii inb by (auto simp: covers_append covers_Cons covers_Nil)
    then show ?thesis
      using True by (simp add: lj_str_hash_4_16_def r1 r2 del: append_assoc)
  next
    case False
    then have "unat len < 8"
      by (simp add: word_le_nat_alt)
    then have inb: "0 \<le> uint len - 4" "uint len \<le> 7"
      unfolding ul using assms(1) by linarith+
    have r1: "rd32 str 0 tr = Some (le_word (take 4 (drop (nat 0) str)), tr @ [(0, 4)])"
      using rd32_Some [of 0 str tr] inb ll by simp
    have r2: "rd32 str (uint len - 4) (tr @ [(0, 4)]) =
        Some (le_word (take 4 (drop (nat (uint len - 4)) str)), (tr @ [(0, 4)]) @ [(uint len - 4, 4)])"
      using rd32_Some [of "uint len - 4" str "tr @ [(0, 4)]"] inb ll by simp
    have "covers ((tr @ [(0, 4)]) @ [(uint len - 4, 4)]) (int i)"
      using ii inb by (auto simp: covers_append covers_Cons covers_Nil)
    then show ?thesis
      using False by (simp add: lj_str_hash_4_16_def r1 r2 del: append_assoc)
  qed
qed

lemma lj_str_hash_1_4_covers:
  fixes len :: u32
  assumes "1 \<le> unat len" "unat len \<le> 3" "unat len \<le> length str" "i < unat len"
  shows "\<exists>h tr'. lj_str_hash_1_4 str len tr = Some (h, tr') \<and> covers tr' (int i)"
proof -
  have ul: "uint len = int (unat len)"
    by simp
  have ii: "int i < uint len" and ll: "uint len \<le> int (length str)" and l1: "1 \<le> uint len"
    and l3: "uint len \<le> 3"
    unfolding ul using assms by linarith+
  have "unat (drop_bit 1 len) = unat len div 2"
    unfolding unat_drop_bit_eq by (simp add: drop_bit_eq_div)
  then have "int (unat (drop_bit 1 len)) = int (unat len) div 2"
    by (simp only: zdiv_int) simp
  then have half: "uint (drop_bit 1 len) = uint len div 2"
    by simp
  define m where "m = uint (drop_bit 1 len)"
  have m: "0 \<le> m" "m < uint len" "uint len = 3 \<longrightarrow> m = 1"
    unfolding m_def half using l1 by simp_all
  define tr1 where "tr1 = tr @ [(0, 1)]"
  define tr2 where "tr2 = tr1 @ [(uint len - 1, 1)]"
  define tr3 where "tr3 = tr2 @ [(m, 1)]"
  have r1: "rd8 str 0 tr = Some (le_word (take 1 (drop (nat 0) str)), tr1)"
    using rd8_Some [of 0 str tr] l1 ll by (simp add: tr1_def)
  have r2: "rd8 str (uint len - 1) tr1 = Some (le_word (take 1 (drop (nat (uint len - 1)) str)), tr2)"
    using rd8_Some [of "uint len - 1" str tr1] l1 ll by (simp add: tr2_def)
  have r3: "rd8 str m tr2 = Some (le_word (take 1 (drop (nat m) str)), tr3)"
    using rd8_Some [of m str tr2] m ll by (simp add: tr3_def)
  have "covers tr3 (int i)"
    using ii l1 l3 m by (auto simp: tr3_def tr2_def tr1_def covers_append covers_Cons covers_Nil)
  then show ?thesis
    by (simp add: lj_str_hash_1_4_def r1 r2 r3 m_def [symmetric] Let_def del: One_nat_def)
qed


lemma ucast_len_small:
  fixes len :: u64
  assumes "unat len < 2 ^ 32"
  shows "unat (ucast len :: u32) = unat len"
  using assms by (simp add: unsigned_ucast_eq take_bit_nat_eq_self)

text \<open>
  C2: for every length from 1 to 127 and every byte index below it, the routine the
  dispatcher selects for that length (\<^verbatim>\<open>lj_str_hash_1_4\<close> under 4, \<^verbatim>\<open>lj_str_hash_4_16\<close>
  under 16, \<^verbatim>\<open>lj_str_hash_16_128\<close> otherwise) returns and its log holds a read that spans
  the index.
\<close>

theorem short_strings_fully_read:
  fixes len :: u64
  assumes "1 \<le> unat len" "unat len \<le> 127" "unat len \<le> length str" "i < unat len"
  shows "\<exists>h tr. lj_str_hash_crc32 c32 c64 t str len [] = Some (h, tr) \<and> covers tr (int i) \<and>
           lj_str_hash_crc32 c32 c64 t str len [] =
             (if unat len < 4 then lj_str_hash_1_4 str (ucast len) []
              else if unat len < 16 then lj_str_hash_4_16 c32 c64 str (ucast len) []
              else lj_str_hash_16_128 c32 c64 str (ucast len) [])"
proof -
  have u: "unat (ucast len :: u32) = unat len"
    using assms(2) by (intro ucast_len_small) simp
  have cmp: "len < 128" "(len \<ge> 16) = (16 \<le> unat len)" "(len \<ge> 4) = (4 \<le> unat len)"
    using assms(2) by (simp_all add: word_less_nat_alt word_le_nat_alt)
  have disp: "lj_str_hash_crc32 c32 c64 t str len [] =
             (if unat len < 4 then lj_str_hash_1_4 str (ucast len) []
              else if unat len < 16 then lj_str_hash_4_16 c32 c64 str (ucast len) []
              else lj_str_hash_16_128 c32 c64 str (ucast len) [])"
    by (simp add: lj_str_hash_crc32_def cmp)
  consider "unat len < 4" | "4 \<le> unat len" "unat len < 16" | "16 \<le> unat len"
    by linarith
  then have "\<exists>h tr. lj_str_hash_crc32 c32 c64 t str len [] = Some (h, tr) \<and> covers tr (int i)"
  proof cases
    case 1
    then show ?thesis
      using lj_str_hash_1_4_covers [of "ucast len" str i "[]"] assms by (simp add: disp u)
  next
    case 2
    then show ?thesis
      using lj_str_hash_4_16_covers [of "ucast len" str i c32 c64 "[]"] assms by (simp add: disp u)
  next
    case 3
    then show ?thesis
      using lj_str_hash_16_128_covers [of "ucast len" str i c32 c64 "[]"] assms by (simp add: disp u)
  qed
  with disp show ?thesis
    by metis
qed

theorem short_strings_fully_read_witness:
  "\<exists>h tr. lj_str_hash_crc32 crc32c_u32 crc32c_u64 (\<lambda>i j. 0) (replicate 40 7) 40 [] = Some (h, tr) \<and>
     covers tr (int 33) \<and>
     lj_str_hash_crc32 crc32c_u32 crc32c_u64 (\<lambda>i j. 0) (replicate 40 7) 40 [] =
       lj_str_hash_16_128 crc32c_u32 crc32c_u64 (replicate 40 7) (ucast (40 :: u64)) []"
  using short_strings_fully_read [of 40 "replicate 40 7" 33 crc32c_u32 crc32c_u64 "\<lambda>i j. 0"]
  by simp

text \<open>
  C5 as amended: in \<^verbatim>\<open>lj_str_hash_16_128\<close>, for every buffer and every length from 16 to
  127, the two words folded after the stride loop are the 8 bytes at the indices
  \<open>len - 16\<close> to \<open>len - 9\<close>, folded into \<open>h1\<close>, and the last 8 bytes (indices \<open>len - 8\<close>
  to \<open>len - 1\<close>), folded into \<open>h2\<close>, before the final combine of \<open>h2\<close> into \<open>h1\<close>.
\<close>

theorem tail_folds_16_128:
  fixes len :: u32
  assumes "16 \<le> unat len" "unat len < 128" "unat len \<le> length str"
  shows "\<exists>h1 h2 tr1.
           lj_str_hash_16_128_loop c64 str len 0 (ucast (c32 0 len)) 0 tr = Some (h1, h2, tr1) \<and>
           lj_str_hash_16_128_accs c32 c64 str len tr =
             Some (c64 h1 (prev8 str len), c64 h2 (last8 str len),
                   tr1 @ [(uint len - 16, 8), (uint len - 8, 8)]) \<and>
           lj_str_hash_16_128 c32 c64 str len tr =
             Some (c32 (ucast (c64 h1 (prev8 str len))) (ucast (c64 h2 (last8 str len))),
                   tr1 @ [(uint len - 16, 8), (uint len - 8, 8)])"
proof -
  obtain h1 h2 tr1 where
    loop: "lj_str_hash_16_128_loop c64 str len 0 (ucast (c32 0 len)) 0 tr = Some (h1, h2, tr1)"
    and accs: "lj_str_hash_16_128_accs c32 c64 str len tr =
             Some (c64 h1 (prev8 str len), c64 h2 (last8 str len),
                   tr1 @ [(uint len - 16, 8), (uint len - 8, 8)])"
    using lj_str_hash_16_128_accs_run [OF assms(1,3), of c64 c32 tr] by blast
  have "lj_str_hash_16_128 c32 c64 str len tr =
             Some (c32 (ucast (c64 h1 (prev8 str len))) (ucast (c64 h2 (last8 str len))),
                   tr1 @ [(uint len - 16, 8), (uint len - 8, 8)])"
    by (simp add: lj_str_hash_16_128_def accs)
  with loop accs show ?thesis
    by blast
qed

theorem tail_folds_16_128_witness:
  "\<exists>h1 h2 tr1.
     lj_str_hash_16_128_loop crc32c_u64 (replicate 40 7) 40 0 (ucast (crc32c_u32 0 40)) 0 [] = Some (h1, h2, tr1) \<and>
     lj_str_hash_16_128_accs crc32c_u32 crc32c_u64 (replicate 40 7) 40 [] =
       Some (crc32c_u64 h1 (prev8 (replicate 40 7) 40), crc32c_u64 h2 (last8 (replicate 40 7) 40),
             tr1 @ [(uint (40 :: u32) - 16, 8), (uint (40 :: u32) - 8, 8)]) \<and>
     lj_str_hash_16_128 crc32c_u32 crc32c_u64 (replicate 40 7) 40 [] =
       Some (crc32c_u32 (ucast (crc32c_u64 h1 (prev8 (replicate 40 7) 40)))
                        (ucast (crc32c_u64 h2 (last8 (replicate 40 7) 40))),
             tr1 @ [(uint (40 :: u32) - 16, 8), (uint (40 :: u32) - 8, 8)])"
  using tail_folds_16_128 [of 40 "replicate 40 7" crc32c_u64 crc32c_u32 "[]"] by simp

text \<open>
  C5 as stated (the last 8 bytes into \<open>h1\<close>, the 8 bytes before them into \<open>h2\<close>) fails:
  for the 16 bytes 0 to 15 the stride loop does nothing and the accumulators before
  the final combine are not the claimed ones.
\<close>

theorem tail_folds_16_128_claimed_fails:
  "lj_str_hash_16_128_loop crc32c_u64 [0, 1, 2, 3, 4, 5, 6, 7, 8, 9, 10, 11, 12, 13, 14, 15] 16 0
     (ucast (crc32c_u32 0 16)) 0 [] = Some (ucast (crc32c_u32 0 16), 0, []) \<and>
   map_option (\<lambda>(h1, h2, tr). (h1, h2))
     (lj_str_hash_16_128_accs crc32c_u32 crc32c_u64 [0, 1, 2, 3, 4, 5, 6, 7, 8, 9, 10, 11, 12, 13, 14, 15] 16 [])
   \<noteq> Some (claimed_16_128_tail crc32c_u64
         [0, 1, 2, 3, 4, 5, 6, 7, 8, 9, 10, 11, 12, 13, 14, 15] 16 (ucast (crc32c_u32 0 16)) 0)"
proof -
  define B :: "u8 list" where "B = [0, 1, 2, 3, 4, 5, 6, 7, 8, 9, 10, 11, 12, 13, 14, 15]"
  have p8: "prev8 B 16 = 0x0706050403020100"
    by (simp add: prev8_def B_def)
  have l8: "last8 B 16 = 0x0F0E0D0C0B0A0908"
    by (simp add: last8_def B_def)
  have c1: "crc32c_u32 0 16 = 3915690301"
    by code_simp
  have c2: "crc32c_u64 3915690301 0x0706050403020100 = 523097762"
    by code_simp
  have c3: "crc32c_u64 3915690301 0x0F0E0D0C0B0A0908 = 1870854897"
    by code_simp
  have loop: "lj_str_hash_16_128_loop crc32c_u64 B 16 0 (ucast (crc32c_u32 0 16)) 0 [] =
      Some (ucast (crc32c_u32 0 16), 0, [])"
    by (subst lj_str_hash_16_128_loop.simps) simp
  obtain h1 h2 tr1 where
    loop': "lj_str_hash_16_128_loop crc32c_u64 B 16 0 (ucast (crc32c_u32 0 16)) 0 [] = Some (h1, h2, tr1)"
    and accs: "lj_str_hash_16_128_accs crc32c_u32 crc32c_u64 B 16 [] =
      Some (crc32c_u64 h1 (prev8 B 16), crc32c_u64 h2 (last8 B 16),
            tr1 @ [(uint (16 :: u32) - 16, 8), (uint (16 :: u32) - 8, 8)])"
    using lj_str_hash_16_128_accs_run [of 16 B crc32c_u64 crc32c_u32 "[]"] by (auto simp: B_def)
  have h: "h1 = 3915690301" "h2 = 0"
    using loop loop' by (simp_all add: c1)
  have cl: "fst (claimed_16_128_tail crc32c_u64 B 16 (ucast (crc32c_u32 0 16)) 0) = 1870854897"
    by (simp add: claimed_16_128_tail_def c1 l8 c3)
  have ac: "map_option (\<lambda>(h1, h2, tr). (h1, h2)) (lj_str_hash_16_128_accs crc32c_u32 crc32c_u64 B 16 [])
      = Some (523097762, crc32c_u64 0 (last8 B 16))"
    by (simp add: accs h p8 c2)
  have "(523097762 :: u64, crc32c_u64 0 (last8 B 16)) \<noteq>
      claimed_16_128_tail crc32c_u64 B 16 (ucast (crc32c_u32 0 16)) 0"
  proof
    assume "(523097762 :: u64, crc32c_u64 0 (last8 B 16)) =
      claimed_16_128_tail crc32c_u64 B 16 (ucast (crc32c_u32 0 16)) 0"
    then have "fst (523097762 :: u64, crc32c_u64 0 (last8 B 16)) = (1870854897 :: u64)"
      by (simp only: cl)
    then show False
      by simp
  qed
  then have "map_option (\<lambda>(h1, h2, tr). (h1, h2)) (lj_str_hash_16_128_accs crc32c_u32 crc32c_u64 B 16 [])
      \<noteq> Some (claimed_16_128_tail crc32c_u64 B 16 (ucast (crc32c_u32 0 16)) 0)"
    unfolding ac by (simp only: option.inject not_False_eq_True)
  with loop show ?thesis
    unfolding B_def by blast
qed

section \<open>Reads of the routine for 128 bytes and more\<close>

lemma unat_Suc_word:
  fixes i b :: u32
  assumes "unat i < unat b"
  shows "unat (i + 1) = unat i + 1"
proof -
  have "unat b < 2 ^ 32"
    using unsigned_less [of b, where ?'a = nat] by simp
  with assms have "unat i + unat (1 :: u32) < 2 ^ LENGTH(32)"
    by simp
  then show ?thesis
    using unat_add_lem [THEN iffD1, of i 1] by simp
qed

lemma lj_str_hash_128_above_loop_run:
  fixes i chunk_sz pos1 pos2 len :: u32
  assumes C: "8 \<le> uint chunk_sz" "16 * uint chunk_sz \<le> uint len" "uint len \<le> int (length str)"
    and P: "uint pos1 < 2 * uint chunk_sz" "uint pos2 < 2 * uint chunk_sz"
    and i: "unat i \<le> 7" "chunk_ptr = int (unat i) * uint chunk_sz"
  shows "\<exists>h1' h2' ex.
           lj_str_hash_128_above_loop c64 str chunk_sz pos1 pos2 7 i chunk_ptr h1 h2 tr =
             Some (7 * uint chunk_sz, h1', h2', tr @ ex) \<and>
           length ex = 2 * (7 - unat i) \<and> (\<forall>a \<in> set ex. in_range (9 * uint chunk_sz + 7) a)"
  using i
proof (induction "7 - unat i" arbitrary: i chunk_ptr h1 h2 tr rule: less_induct)
  case less
  show ?case
  proof (cases "i < 7")
    case False
    then have "unat i = 7"
      using less.prems(1) by (simp add: word_less_nat_alt)
    then have "chunk_ptr = 7 * uint chunk_sz"
      using less.prems(2) by simp
    moreover have "lj_str_hash_128_above_loop c64 str chunk_sz pos1 pos2 7 i chunk_ptr h1 h2 tr =
        Some (chunk_ptr, h1, h2, tr)"
      using False by (subst lj_str_hash_128_above_loop.simps) simp
    ultimately show ?thesis
      using \<open>unat i = 7\<close> by simp
  next
    case True
    then have lt: "unat i < 7"
      by (simp add: word_less_nat_alt)
    then have i1: "unat (i + 1) = unat i + 1"
      using unat_Suc_word [of i 7] by simp
    have i6: "int (unat i) \<le> 6"
      using lt by linarith
    have c0: "0 \<le> uint chunk_sz"
      using C(1) by linarith
    have "int (unat i) * uint chunk_sz \<le> 6 * uint chunk_sz"
      by (rule mult_right_mono [OF i6 c0])
    moreover have "0 \<le> int (unat i) * uint chunk_sz"
      by (rule mult_nonneg_nonneg [OF _ c0]) (rule of_nat_0_le_iff)
    ultimately have cp: "0 \<le> chunk_ptr" "chunk_ptr \<le> 6 * uint chunk_sz"
      unfolding less.prems(2) by blast+
    have p0: "0 \<le> uint pos1" "0 \<le> uint pos2"
      by simp_all
    define o1 where "o1 = chunk_ptr + uint pos1"
    define o2 where "o2 = chunk_ptr + uint chunk_sz + uint pos2"
    have b1: "0 \<le> o1" "o1 + 8 \<le> 9 * uint chunk_sz + 7"
      and b2: "0 \<le> o2" "o2 + 8 \<le> 9 * uint chunk_sz + 7"
      unfolding o1_def o2_def using cp p0 C P by linarith+
    have hi: "9 * uint chunk_sz + 7 \<le> int (length str)"
      using C by linarith
    obtain v where r1: "rd64 str o1 tr = Some (v, tr @ [(o1, 8)])"
      using rd64_Some [of o1 str tr] b1 hi by simp
    obtain w where r2: "rd64 str o2 (tr @ [(o1, 8)]) = Some (w, (tr @ [(o1, 8)]) @ [(o2, 8)])"
      using rd64_Some [of o2 str "tr @ [(o1, 8)]"] b2 hi by simp
    have unfold: "lj_str_hash_128_above_loop c64 str chunk_sz pos1 pos2 7 i chunk_ptr h1 h2 tr =
        lj_str_hash_128_above_loop c64 str chunk_sz pos1 pos2 7 (i + 1) (chunk_ptr + uint chunk_sz)
          (c64 h1 v) (c64 h2 w) ((tr @ [(o1, 8)]) @ [(o2, 8)])"
      using True
      by (subst lj_str_hash_128_above_loop.simps)
         (simp add: r1 r2 o1_def [symmetric] o2_def [symmetric] del: append_assoc)
    have next_ptr: "chunk_ptr + uint chunk_sz = int (unat (i + 1)) * uint chunk_sz"
      using less.prems(2) by (simp add: i1 distrib_right)
    have "7 - unat (i + 1) < 7 - unat i" "unat (i + 1) \<le> 7"
      using lt i1 by simp_all
    from less.hyps [OF this next_ptr, of "c64 h1 v" "c64 h2 w" "(tr @ [(o1, 8)]) @ [(o2, 8)]"]
    obtain h1' h2' ex where
      run: "lj_str_hash_128_above_loop c64 str chunk_sz pos1 pos2 7 (i + 1) (chunk_ptr + uint chunk_sz)
          (c64 h1 v) (c64 h2 w) ((tr @ [(o1, 8)]) @ [(o2, 8)]) =
          Some (7 * uint chunk_sz, h1', h2', ((tr @ [(o1, 8)]) @ [(o2, 8)]) @ ex)"
      and len: "length ex = 2 * (7 - unat (i + 1))"
      and inb: "\<forall>a \<in> set ex. in_range (9 * uint chunk_sz + 7) a"
      by blast
    have "lj_str_hash_128_above_loop c64 str chunk_sz pos1 pos2 7 i chunk_ptr h1 h2 tr =
        Some (7 * uint chunk_sz, h1', h2', tr @ ([(o1, 8), (o2, 8)] @ ex))"
      using unfold run by simp
    moreover have "length ([(o1, 8), (o2, 8)] @ ex) = 2 * (7 - unat i)"
      using len lt i1 by simp
    moreover have "\<forall>a \<in> set ([(o1, 8), (o2, 8)] @ ex). in_range (9 * uint chunk_sz + 7) a"
      using inb b1 b2 by (auto simp: in_range_def)
    ultimately show ?thesis
      by blast
  qed
qed


lemma chunk_positions:
  fixes len :: u32
  assumes ok: "tab_ok 31 t" and len: "128 \<le> unat len"
  defines "chunk_sz \<equiv> len div 16"
  shows "\<exists>pos1 pos2.
           get_random_pos_unsafe t (log2_floor chunk_sz) 0 = Some pos1 \<and>
           get_random_pos_unsafe t (log2_floor chunk_sz) 1 = Some pos2 \<and>
           uint pos1 < 2 * uint chunk_sz \<and> uint pos2 < 2 * uint chunk_sz \<and>
           8 \<le> uint chunk_sz \<and> 16 * uint chunk_sz \<le> uint len"
proof -
  have ucs: "unat chunk_sz = unat len div 16"
    by (simp add: chunk_sz_def unat_div)
  have "unat len < 2 ^ 32"
    using unsigned_less [of len, where ?'a = nat] by simp
  then have cs: "8 \<le> unat chunk_sz" "unat chunk_sz < 2 ^ 28" "16 * unat chunk_sz \<le> unat len"
    using len by (simp_all add: ucs)
  then have "chunk_sz \<noteq> 0"
    by auto
  define k where "k = unat (log2_floor chunk_sz)"
  have kb: "2 ^ k \<le> unat chunk_sz" "unat chunk_sz < 2 ^ (k + 1)"
    using log2_floor_bounds [OF \<open>chunk_sz \<noteq> 0\<close>] by (simp_all add: k_def)
  have "(2::nat) ^ k < 2 ^ 28"
    using kb(1) cs(2) by linarith
  then have k28: "k < 28"
    by (rule power_less_imp_less_exp [rotated]) simp
  have uk: "uint (log2_floor chunk_sz) = int k"
    by (simp add: k_def)
  have g0: "get_random_pos_unsafe t (log2_floor chunk_sz) 0 = Some (t k 0)"
    using k28 by (simp add: get_random_pos_unsafe_def tab_get_def uk)
  have g1: "get_random_pos_unsafe t (log2_floor chunk_sz) 1 = Some (t k 1)"
    using k28 by (simp add: get_random_pos_unsafe_def tab_get_def uk)
  have cells: "unat (t k 0) < 2 ^ (k + 1)" "unat (t k 1) < 2 ^ (k + 1)"
    using ok k28 by (simp_all add: tab_ok_def cell_ok_def)
  have "2 ^ (k + 1) \<le> 2 * unat chunk_sz"
    using kb(1) by simp
  with cells have "unat (t k 0) < 2 * unat chunk_sz" "unat (t k 1) < 2 * unat chunk_sz"
    by linarith+
  then have "int (unat (t k 0)) < 2 * int (unat chunk_sz)" "int (unat (t k 1)) < 2 * int (unat chunk_sz)"
    by linarith+
  moreover have "8 \<le> int (unat chunk_sz)" "16 * int (unat chunk_sz) \<le> int (unat len)"
    using cs by linarith+
  ultimately show ?thesis
    using g0 g1 by simp
qed

lemma lj_str_hash_128_above_run:
  fixes len :: u32
  assumes ok: "tab_ok 31 t" and len: "128 \<le> unat len" "unat len \<le> length str"
  shows "\<exists>h ex. lj_str_hash_128_above c32 c64 t str len tr =
             Some (h, (tr @ ex) @ [(0, 8), (uint len - 8, 8)]) \<and>
           length ex = 16 \<and> (\<forall>a \<in> set ex. in_range (9 * uint (len div 16) + 7) a)"
proof -
  define chunk_sz where "chunk_sz = len div 16"
  obtain pos1 pos2 where
    g1: "get_random_pos_unsafe t (log2_floor chunk_sz) 0 = Some pos1" and
    g2: "get_random_pos_unsafe t (log2_floor chunk_sz) 1 = Some pos2" and
    P: "uint pos1 < 2 * uint chunk_sz" "uint pos2 < 2 * uint chunk_sz" and
    C: "8 \<le> uint chunk_sz" "16 * uint chunk_sz \<le> uint len"
    using chunk_positions [OF ok len(1)] unfolding chunk_sz_def by blast
  have "int (unat len) \<le> int (length str)"
    using len(2) by linarith
  then have L: "uint len \<le> int (length str)"
    by simp
  have p0: "0 \<le> uint pos1" "0 \<le> uint pos2"
    by simp_all
  obtain h1 h2 ex where
    loop: "lj_str_hash_128_above_loop c64 str chunk_sz pos1 pos2 7 0 0 (ucast (c32 0 len)) 0 tr =
             Some (7 * uint chunk_sz, h1, h2, tr @ ex)"
    and lex: "length ex = 2 * (7 - unat (0 :: u32))" and inb: "\<forall>a \<in> set ex. in_range (9 * uint chunk_sz + 7) a"
    using lj_str_hash_128_above_loop_run [OF C L P, of 0 0 c64 "ucast (c32 0 len)" 0 tr] by auto
  define o1 where "o1 = 7 * uint chunk_sz + uint pos1"
  define o2 where "o2 = 7 * uint chunk_sz + uint chunk_sz - 8 - uint pos2"
  have b1: "0 \<le> o1" "o1 + 8 \<le> 9 * uint chunk_sz + 7"
    and b2: "0 \<le> o2" "o2 + 8 \<le> 9 * uint chunk_sz + 7"
    and b3: "0 + 8 \<le> uint len" and b4: "0 \<le> uint len - 8"
    and hi: "9 * uint chunk_sz + 7 \<le> uint len"
    unfolding o1_def o2_def using p0 C P by linarith+
  define T1 where "T1 = tr @ ex"
  define T2 where "T2 = T1 @ [(o1, 8)]"
  define T3 where "T3 = T2 @ [(o2, 8)]"
  define T4 where "T4 = T3 @ [(0, 8)]"
  define T5 where "T5 = T4 @ [(uint len - 8, 8)]"
  obtain v1 where r1: "rd64 str o1 T1 = Some (v1, T2)"
    using rd64_Some [of o1 str T1] b1 hi L by (simp add: T2_def)
  obtain v2 where r2: "rd64 str o2 T2 = Some (v2, T3)"
    using rd64_Some [of o2 str T2] b2 hi L by (simp add: T3_def)
  obtain v3 where r3: "rd64 str 0 T3 = Some (v3, T4)"
    using rd64_Some [of 0 str T3] b3 L by (simp add: T4_def)
  obtain v4 where r4: "rd64 str (uint len - 8) T4 = Some (v4, T5)"
    using rd64_Some [of "uint len - 8" str T4] b4 L by (simp add: T5_def)
  have o2_alt: "8 * uint chunk_sz - 8 - uint pos2 = o2"
    by (simp add: o2_def)
  have run: "\<exists>h. lj_str_hash_128_above c32 c64 t str len tr = Some (h, T5)"
    by (simp add: lj_str_hash_128_above_def Let_def chunk_sz_def [symmetric] g1 g2 loop
        T1_def [symmetric] o1_def [symmetric] o2_alt r1 r2 r3 r4)
  have "T5 = (tr @ (ex @ [(o1, 8), (o2, 8)])) @ [(0, 8), (uint len - 8, 8)]"
    by (simp add: T5_def T4_def T3_def T2_def T1_def)
  moreover have "length (ex @ [(o1, 8), (o2, 8)]) = 16"
    using lex by simp
  moreover have "\<forall>a \<in> set (ex @ [(o1, 8), (o2, 8)]). in_range (9 * uint chunk_sz + 7) a"
    using inb b1 b2 by (auto simp: in_range_def)
  ultimately show ?thesis
    using run unfolding chunk_sz_def by blast
qed

lemma init_random_tab_ok:
  assumes "lj_str_hash_init_random c32 RM gen pid now t0 r0 = Some (t, r)"
  shows "tab_ok 31 t"
  using lj_str_hash_init_random_ok [of c32 RM gen pid now t0 r0] assms by auto

text \<open>
  C1: for every buffer of at least \<open>len \<ge> 128\<close> bytes and the table left by
  \<^verbatim>\<open>lj_str_hash_init_random\<close> (for every generator, \<open>RAND_MAX\<close> and earlier table),
  \<^verbatim>\<open>lj_str_hash_128_above\<close> returns, and each of its 18 reads (the 14 of the chunk-pair
  loop, the 2 of the last chunk pair, the head and the tail) is 8 bytes wide, starts at
  an offset \<open>\<ge> 0\<close> and ends at or before byte \<open>len - 1\<close>.
\<close>

theorem long_strings_read_in_bounds:
  fixes len :: u32
  assumes "128 \<le> unat len" "unat len \<le> length str"
  shows "\<exists>t r. lj_str_hash_init_random c32' RM gen pid now t0 r0 = Some (t, r) \<and>
           (\<exists>h tr. lj_str_hash_128_above c32 c64 t str len [] = Some (h, tr) \<and> length tr = 18 \<and>
              (\<forall>(off, w) \<in> set tr. w = 8 \<and> 0 \<le> off \<and> off + 8 \<le> uint len))"
proof -
  obtain t r where init: "lj_str_hash_init_random c32' RM gen pid now t0 r0 = Some (t, r)"
    and ok: "tab_ok 31 t"
    using lj_str_hash_init_random_ok by blast
  obtain h ex where run: "lj_str_hash_128_above c32 c64 t str len [] =
      Some (h, ([] @ ex) @ [(0, 8), (uint len - 8, 8)])"
    and lex: "length ex = 16" and inb: "\<forall>a \<in> set ex. in_range (9 * uint (len div 16) + 7) a"
    using lj_str_hash_128_above_run [OF ok assms, of c32 c64 "[]"] by blast
  have "unat (len div 16) * 16 \<le> unat len" "8 \<le> unat (len div 16)"
    using assms(1) by (simp_all add: unat_div)
  then have "9 * int (unat (len div 16)) + 7 \<le> int (unat len)" "8 \<le> int (unat len)"
    by linarith+
  then have hi: "9 * uint (len div 16) + 7 \<le> uint len" and l8: "8 \<le> uint len"
    by simp_all
  have "\<forall>(off, w) \<in> set (([] @ ex) @ [(0, 8), (uint len - 8, 8)]). w = 8 \<and> 0 \<le> off \<and> off + 8 \<le> uint len"
    using inb hi l8 by (auto simp: in_range_def)
  moreover have "length (([] @ ex) @ [(0, 8), (uint len - 8, 8)]) = 18"
    using lex by simp
  ultimately show ?thesis
    using init run by blast
qed

theorem long_strings_read_in_bounds_witness:
  "\<exists>t r. lj_str_hash_init_random crc32c_u32 0x7FFFFFFF (\<lambda>seed k. 5) 1234 1700000000 (\<lambda>i j. 0)
           \<lparr>rng_seed = 1, rng_draws = 0, rng_seedings = 0\<rparr> = Some (t, r) \<and>
     (\<exists>h tr. lj_str_hash_128_above crc32c_u32 crc32c_u64 t (replicate 200 7) 200 [] = Some (h, tr) \<and>
        length tr = 18 \<and>
        (\<forall>(off, w) \<in> set tr. w = 8 \<and> 0 \<le> off \<and> off + 8 \<le> uint (200 :: u32)))"
  using long_strings_read_in_bounds [of 200 "replicate 200 7" crc32c_u32 "0x7FFFFFFF" "\<lambda>seed k. 5"
      1234 1700000000 "\<lambda>i j. 0" "\<lparr>rng_seed = 1, rng_draws = 0, rng_seedings = 0\<rparr>"
      crc32c_u32 crc32c_u64]
  by simp

lemma rd64_trace: "rd64 b off tr = Some (v, tr') \<Longrightarrow> tr' = tr @ [(off, 8)]"
  by (auto simp: rd64_def load_def split: if_splits)

lemma agree_on_mono: "agree_on T b1 b2 \<Longrightarrow> set tr \<subseteq> set T \<Longrightarrow> agree_on tr b1 b2"
  by (auto simp: agree_on_def)

lemma rd64_agree:
  assumes rd: "rd64 b1 off tr = Some (v, tr')" and len: "length b1 = length b2"
    and ag: "agree_on [(off, 8)] b1 b2"
  shows "rd64 b2 off tr = Some (v, tr')"
proof -
  from rd have inb: "0 \<le> off" "off + 8 \<le> int (length b1)"
    by (auto simp: rd64_def load_def split: if_splits)
  then have n: "nat off + 8 \<le> length b1"
    by linarith
  have "take 8 (drop (nat off) b1) = take 8 (drop (nat off) b2)"
  proof (rule nth_equalityI)
    show "length (take 8 (drop (nat off) b1)) = length (take 8 (drop (nat off) b2))"
      using len by simp
    fix j
    assume "j < length (take 8 (drop (nat off) b1))"
    then have j: "j < 8"
      by simp
    then have "b1 ! (nat off + j) = b2 ! (nat off + j)"
      using ag by (simp add: agree_on_def)
    then show "take 8 (drop (nat off) b1) ! j = take 8 (drop (nat off) b2) ! j"
      using j n len by simp
  qed
  with rd inb len show ?thesis
    by (auto simp: rd64_def load_def)
qed

lemma lj_str_hash_128_above_loop_agree:
  assumes "lj_str_hash_128_above_loop c64 b1 cs p1 p2 bound i cp h1 h2 tr = Some (cp', h1', h2', T)"
    and "length b1 = length b2"
  shows "set tr \<subseteq> set T \<and>
         (agree_on T b1 b2 \<longrightarrow>
            lj_str_hash_128_above_loop c64 b2 cs p1 p2 bound i cp h1 h2 tr = Some (cp', h1', h2', T))"
  using assms(1)
proof (induction "unat bound - unat i" arbitrary: i cp h1 h2 tr rule: less_induct)
  case less
  show ?case
  proof (cases "i < bound")
    case False
    then show ?thesis
      using less.prems
      by (subst lj_str_hash_128_above_loop.simps, subst (asm) lj_str_hash_128_above_loop.simps) simp
  next
    case True
    from less.prems True obtain v tr1 w tr2 where
      r1: "rd64 b1 (cp + uint p1) tr = Some (v, tr1)" and
      r2: "rd64 b1 (cp + uint cs + uint p2) tr1 = Some (w, tr2)" and
      rec: "lj_str_hash_128_above_loop c64 b1 cs p1 p2 bound (i + 1) (cp + uint cs) (c64 h1 v) (c64 h2 w) tr2
            = Some (cp', h1', h2', T)"
      by (subst (asm) lj_str_hash_128_above_loop.simps) (auto simp: bind_eq_Some_conv)
    have t1: "tr1 = tr @ [(cp + uint p1, 8)]" and t2: "tr2 = tr1 @ [(cp + uint cs + uint p2, 8)]"
      using rd64_trace [OF r1] rd64_trace [OF r2] by simp_all
    have "unat i < unat bound"
      using True by (simp add: word_less_nat_alt)
    then have "unat bound - unat (i + 1) < unat bound - unat i"
      using unat_Suc_word [of i bound] by simp
    from less.hyps [OF this rec]
    have sub: "set tr2 \<subseteq> set T" and
      ih: "agree_on T b1 b2 \<longrightarrow>
        lj_str_hash_128_above_loop c64 b2 cs p1 p2 bound (i + 1) (cp + uint cs) (c64 h1 v) (c64 h2 w) tr2
          = Some (cp', h1', h2', T)"
      by simp_all
    have "lj_str_hash_128_above_loop c64 b2 cs p1 p2 bound i cp h1 h2 tr = Some (cp', h1', h2', T)"
      if ag: "agree_on T b1 b2"
    proof -
      have "agree_on [(cp + uint p1, 8)] b1 b2" "agree_on [(cp + uint cs + uint p2, 8)] b1 b2"
        using sub by (auto intro!: agree_on_mono [OF ag] simp: t1 t2)
      then have "rd64 b2 (cp + uint p1) tr = Some (v, tr1)"
        "rd64 b2 (cp + uint cs + uint p2) tr1 = Some (w, tr2)"
        using rd64_agree [OF r1 assms(2)] rd64_agree [OF r2 assms(2)] by simp_all
      then show ?thesis
        using True ih ag by (subst lj_str_hash_128_above_loop.simps) simp
    qed
    moreover have "set tr \<subseteq> set T"
      using sub by (auto simp: t1 t2)
    ultimately show ?thesis
      by blast
  qed
qed

lemma lj_str_hash_128_above_agree:
  assumes run: "lj_str_hash_128_above c32 c64 t b1 len tr = Some (h, T)"
    and len: "length b1 = length b2" and ag: "agree_on T b1 b2"
  shows "lj_str_hash_128_above c32 c64 t b2 len tr = Some (h, T)"
proof -
  define cs where "cs = len div 16"
  from run obtain p1 p2 cp h1 h2 T1 v1 T2 v2 T3 v3 T4 v4 where
    g1: "get_random_pos_unsafe t (log2_floor cs) 0 = Some p1" and
    g2: "get_random_pos_unsafe t (log2_floor cs) 1 = Some p2" and
    loop: "lj_str_hash_128_above_loop c64 b1 cs p1 p2 7 0 0 (ucast (c32 0 len)) 0 tr = Some (cp, h1, h2, T1)" and
    r1: "rd64 b1 (cp + uint p1) T1 = Some (v1, T2)" and
    r2: "rd64 b1 (cp + uint cs - 8 - uint p2) T2 = Some (v2, T3)" and
    r3: "rd64 b1 0 T3 = Some (v3, T4)" and
    r4: "rd64 b1 (uint len - 8) T4 = Some (v4, T)" and
    h: "h = ucast (ucast (c32 (ucast (c64 (c64 h1 v1) v3)) (ucast (c64 (c64 h2 v2) v4))) :: u64)"
    by (auto simp: lj_str_hash_128_above_def Let_def cs_def bind_eq_Some_conv)
  have t2: "T2 = T1 @ [(cp + uint p1, 8)]" and t3: "T3 = T2 @ [(cp + uint cs - 8 - uint p2, 8)]"
    and t4: "T4 = T3 @ [(0, 8)]" and t5: "T = T4 @ [(uint len - 8, 8)]"
    using rd64_trace [OF r1] rd64_trace [OF r2] rd64_trace [OF r3] rd64_trace [OF r4] by simp_all
  have sub: "set T1 \<subseteq> set T" "set [(cp + uint p1, 8)] \<subseteq> set T"
    "set [(cp + uint cs - 8 - uint p2, 8)] \<subseteq> set T" "set [(0, 8)] \<subseteq> set T"
    "set [(uint len - 8, 8)] \<subseteq> set T"
    by (auto simp: t2 t3 t4 t5)
  have loop2: "lj_str_hash_128_above_loop c64 b2 cs p1 p2 7 0 0 (ucast (c32 0 len)) 0 tr = Some (cp, h1, h2, T1)"
    using lj_str_hash_128_above_loop_agree [OF loop len] agree_on_mono [OF ag sub(1)] by simp
  have r1': "rd64 b2 (cp + uint p1) T1 = Some (v1, T2)"
    by (rule rd64_agree [OF r1 len agree_on_mono [OF ag sub(2)]])
  have r2': "rd64 b2 (cp + uint cs - 8 - uint p2) T2 = Some (v2, T3)"
    by (rule rd64_agree [OF r2 len agree_on_mono [OF ag sub(3)]])
  have r3': "rd64 b2 0 T3 = Some (v3, T4)"
    by (rule rd64_agree [OF r3 len agree_on_mono [OF ag sub(4)]])
  have r4': "rd64 b2 (uint len - 8) T4 = Some (v4, T)"
    by (rule rd64_agree [OF r4 len agree_on_mono [OF ag sub(5)]])
  show ?thesis
    by (simp add: lj_str_hash_128_above_def Let_def cs_def [symmetric] g1 g2 loop2 r1' r2' r3' r4' h)
qed


text \<open>
  C6: for the table left by \<^verbatim>\<open>lj_str_hash_init_random\<close>, every length from 128 on and two
  buffers of that length that agree on the first 16 bytes, on the last 16 bytes and on
  every byte covered by the sampled reads of the run on the first buffer, the routine
  returns the same hash (and makes the same reads) on both.
\<close>

theorem long_strings_sampled_only:
  fixes len :: u32
  assumes init: "lj_str_hash_init_random c32' RM gen pid now t0 r0 = Some (t, r)"
    and len: "128 \<le> unat len" "length b1 = unat len" "length b2 = unat len"
    and head: "\<forall>j < 16. b1 ! j = b2 ! j"
    and tail: "\<forall>j. unat len - 16 \<le> j \<and> j < unat len \<longrightarrow> b1 ! j = b2 ! j"
    and sampled: "agree_on (sampled_reads (lj_str_hash_128_above c32 c64 t b1 len [])) b1 b2"
  shows "\<exists>h tr. lj_str_hash_128_above c32 c64 t b1 len [] = Some (h, tr) \<and>
           lj_str_hash_128_above c32 c64 t b2 len [] = Some (h, tr)"
proof -
  have ok: "tab_ok 31 t"
    using init by (rule init_random_tab_ok)
  obtain h ex where run: "lj_str_hash_128_above c32 c64 t b1 len [] =
      Some (h, ([] @ ex) @ [(0, 8), (uint len - 8, 8)])"
    and lex: "length ex = 16"
    using lj_str_hash_128_above_run [OF ok len(1), of b1 c32 c64 "[]"] len(2) by auto
  have "sampled_reads (lj_str_hash_128_above c32 c64 t b1 len []) = ex"
    using lex by (simp add: sampled_reads_def run)
  then have a1: "agree_on ex b1 b2"
    using sampled by simp
  have a2: "agree_on [(0, 8)] b1 b2"
    using head by (simp add: agree_on_def)
  have "int (unat len) - 8 = int (unat len - 8)"
    using len(1) by linarith
  then have n: "nat (uint len - 8) = unat len - 8"
    by simp
  have "b1 ! (unat len - 8 + j) = b2 ! (unat len - 8 + j)" if "j < 8" for j
  proof -
    have "unat len - 16 \<le> unat len - 8 + j \<and> unat len - 8 + j < unat len"
      using that len(1) by linarith
    then show ?thesis
      using tail by blast
  qed
  then have a3: "agree_on [(uint len - 8, 8)] b1 b2"
    by (simp add: agree_on_def n)
  have "agree_on (([] @ ex) @ [(0, 8), (uint len - 8, 8)]) b1 b2"
    using a1 a2 a3 by (auto simp: agree_on_def)
  then have "lj_str_hash_128_above c32 c64 t b2 len [] = Some (h, ([] @ ex) @ [(0, 8), (uint len - 8, 8)])"
    using lj_str_hash_128_above_agree [OF run] len by simp
  with run show ?thesis
    by blast
qed

theorem long_strings_sampled_only_witness:
  "replicate 128 0 \<noteq> (replicate 128 0) [100 := (1 :: u8)] \<and>
   (\<exists>h tr.
      lj_str_hash_128_above crc32c_u32 crc32c_u64
        (fst (the (lj_str_hash_init_random crc32c_u32 0x7FFFFFFF (\<lambda>seed k. 5) 1234 1700000000
           (\<lambda>i j. 0) \<lparr>rng_seed = 1, rng_draws = 0, rng_seedings = 0\<rparr>)))
        (replicate 128 0) 128 [] = Some (h, tr) \<and>
      lj_str_hash_128_above crc32c_u32 crc32c_u64
        (fst (the (lj_str_hash_init_random crc32c_u32 0x7FFFFFFF (\<lambda>seed k. 5) 1234 1700000000
           (\<lambda>i j. 0) \<lparr>rng_seed = 1, rng_draws = 0, rng_seedings = 0\<rparr>)))
        ((replicate 128 0) [100 := 1]) 128 [] = Some (h, tr))"
proof -
  define t where "t = fst (the (lj_str_hash_init_random crc32c_u32 0x7FFFFFFF (\<lambda>seed k. 5) 1234 1700000000
      (\<lambda>i j. 0) \<lparr>rng_seed = 1, rng_draws = 0, rng_seedings = 0\<rparr>))"
  define b1 :: "u8 list" where "b1 = replicate 128 0"
  define b2 :: "u8 list" where "b2 = b1 [100 := 1]"
  define r where "r = snd (the (lj_str_hash_init_random crc32c_u32 0x7FFFFFFF (\<lambda>seed k. 5) 1234 1700000000
      (\<lambda>i j. 0) \<lparr>rng_seed = 1, rng_draws = 0, rng_seedings = 0\<rparr>))"
  have init: "lj_str_hash_init_random crc32c_u32 0x7FFFFFFF (\<lambda>seed k. 5) 1234 1700000000
      (\<lambda>i j. 0) \<lparr>rng_seed = 1, rng_draws = 0, rng_seedings = 0\<rparr> = Some (t, r)"
    using lj_str_hash_init_random_ok [of crc32c_u32 "0x7FFFFFFF" "\<lambda>seed k. 5" 1234 1700000000
      "\<lambda>i j. 0" "\<lparr>rng_seed = 1, rng_draws = 0, rng_seedings = 0\<rparr>"]
    by (auto simp: t_def r_def)
  have len: "128 \<le> unat (128 :: u32)" "length b1 = unat (128 :: u32)" "length b2 = unat (128 :: u32)"
    by (simp_all add: b1_def b2_def)
  have ne: "b1 ! j = b2 ! j" if "j \<noteq> 100" for j
    using that by (simp add: b2_def)
  have head: "\<forall>j < 16. b1 ! j = b2 ! j"
    using ne by simp
  have tail: "\<forall>j. unat (128 :: u32) - 16 \<le> j \<and> j < unat (128 :: u32) \<longrightarrow> b1 ! j = b2 ! j"
    using ne by simp
  obtain h ex where run: "lj_str_hash_128_above crc32c_u32 crc32c_u64 t b1 128 [] =
      Some (h, ([] @ ex) @ [(0, 8), (uint (128 :: u32) - 8, 8)])"
    and lex: "length ex = 16"
    and inb: "\<forall>a \<in> set ex. in_range (9 * uint ((128 :: u32) div 16) + 7) a"
    using lj_str_hash_128_above_run [OF init_random_tab_ok [OF init] len(1), of b1 crc32c_u32 crc32c_u64 "[]"]
      len(2) by auto
  have s: "sampled_reads (lj_str_hash_128_above crc32c_u32 crc32c_u64 t b1 128 []) = ex"
    using lex by (simp add: sampled_reads_def run)
  have "b1 ! (nat off + j) = b2 ! (nat off + j)" if "(off, w) \<in> set ex" "j < w" for off w j
  proof -
    have "in_range 79 (off, w)"
      using inb that(1) by auto
    then have "nat off + j < 100"
      using that(2) by (auto simp: in_range_def)
    then show ?thesis
      by (intro ne) simp
  qed
  then have sampled: "agree_on (sampled_reads (lj_str_hash_128_above crc32c_u32 crc32c_u64 t b1 128 [])) b1 b2"
    unfolding s agree_on_def by blast
  have "b1 ! 100 \<noteq> b2 ! 100"
    by (simp add: b1_def b2_def)
  then have "b1 \<noteq> b2"
    by metis
  with long_strings_sampled_only [OF init len head tail sampled] show ?thesis
    unfolding b1_def b2_def t_def by blast
qed

end
